theory Spec2Isabelle
  imports Complex_Main "HOL-Library.Sublist"
begin

section \<open>Pixel buffers\<close>

text \<open>
  An image is the object \<open>{width, height, data}\<close> the analysis functions destructure.
  \<open>data\<close> is the row-major RGBA byte array; each entry is kept as the number the
  script reads from it.  The invariant of a real pixel buffer is
  \<open>length data = 4 * width * height\<close>; the functions themselves do not check it.
\<close>

record imageData =
  width :: nat
  height :: nat
  data :: "nat list"

definition wellFormed :: "imageData \<Rightarrow> bool" where
  "wellFormed img = (length (data img) = 4 * width img * height img)"

text \<open>
  Reading a typed array outside its range gives \<open>undefined\<close> (here \<open>None\<close>) and does
  not throw; a write outside the range is ignored.
\<close>

definition rd :: "nat list \<Rightarrow> int \<Rightarrow> nat option" where
  "rd d i = (if 0 \<le> i \<and> nat i < length d then Some (d ! nat i) else None)"

definition wr :: "nat list \<Rightarrow> int \<Rightarrow> nat \<Rightarrow> nat list" where
  "wr d i v = (if 0 \<le> i \<and> nat i < length d then d[nat i := v] else d)"

text \<open>
  Comparisons of a value read from the array with a number: \<open>undefined\<close> converts to
  NaN, so every ordering test is false, and \<open>undefined === 0\<close> is false as well.
\<close>

definition js_gt :: "nat option \<Rightarrow> int \<Rightarrow> bool" where
  "js_gt a k = (case a of None \<Rightarrow> False | Some v \<Rightarrow> k < int v)"

definition js_lt :: "nat option \<Rightarrow> int \<Rightarrow> bool" where
  "js_lt a k = (case a of None \<Rightarrow> False | Some v \<Rightarrow> int v < k)"

definition js_eq :: "nat option \<Rightarrow> int \<Rightarrow> bool" where
  "js_eq a k = (case a of None \<Rightarrow> False | Some v \<Rightarrow> int v = k)"

record color =
  c_r :: "nat option"
  c_g :: "nat option"
  c_b :: "nat option"
  c_a :: "nat option"

definition pixelAt :: "nat list \<Rightarrow> int \<Rightarrow> color" where
  "pixelAt d index =
     \<lparr>c_r = rd d index, c_g = rd d (index + 1), c_b = rd d (index + 2), c_a = rd d (index + 3)\<rparr>"

text \<open>
  The index arithmetic every pixel loop repeats: \<open>(y * width + x) * 4\<close> is the offset of
  the red byte of pixel \<open>(x, y)\<close>, and the alpha byte is three further.
\<close>

definition pixelIndex :: "nat \<Rightarrow> int \<Rightarrow> int \<Rightarrow> int" where
  "pixelIndex w y x = (y * int w + x) * 4"

definition alphaAt :: "nat list \<Rightarrow> nat \<Rightarrow> int \<Rightarrow> int \<Rightarrow> nat option" where
  "alphaAt d w y x = rd d (pixelIndex w y x + 3)"

definition colorAt :: "nat list \<Rightarrow> nat \<Rightarrow> int \<Rightarrow> int \<Rightarrow> color" where
  "colorAt d w y x = pixelAt d (pixelIndex w y x)"


section \<open>Grid detector\<close>

text \<open>
  \<open>detectGrid\<close> reads its tolerance and the two minimum gaps from the global settings
  object; they are parameters here.
\<close>

definition absDiffLe :: "nat option \<Rightarrow> nat option \<Rightarrow> int \<Rightarrow> bool" where
  "absDiffLe a b tolerance =
     (case a of None \<Rightarrow> False
      | Some u \<Rightarrow> (case b of None \<Rightarrow> False | Some v \<Rightarrow> \<bar>int u - int v\<bar> \<le> tolerance))"

definition colorsMatch :: "color \<Rightarrow> color \<Rightarrow> int \<Rightarrow> bool" where
  "colorsMatch p q tolerance =
     (absDiffLe (c_r p) (c_r q) tolerance \<and> absDiffLe (c_g p) (c_g q) tolerance \<and>
      absDiffLe (c_b p) (c_b q) tolerance \<and> absDiffLe (c_a p) (c_a q) tolerance)"

definition isUniformRow :: "nat list \<Rightarrow> nat \<Rightarrow> nat \<Rightarrow> nat \<Rightarrow> int \<Rightarrow> bool" where
  "isUniformRow d w h y tolerance =
     (let firstPixel = pixelAt d (int (y * w * 4))
      in list_all (\<lambda>x. colorsMatch firstPixel (pixelAt d (int ((y * w + x) * 4))) tolerance)
           [1..<w])"

definition isUniformColumn :: "nat list \<Rightarrow> nat \<Rightarrow> nat \<Rightarrow> nat \<Rightarrow> int \<Rightarrow> bool" where
  "isUniformColumn d w h x tolerance =
     (let firstPixel = pixelAt d (int (x * 4))
      in list_all (\<lambda>y. colorsMatch firstPixel (pixelAt d (int ((y * w + x) * 4))) tolerance)
           [1..<h])"

record outerBorders =
  ob_top :: nat
  ob_right :: nat
  ob_bottom :: nat
  ob_left :: nat

text \<open>
  Each of the four loops of \<open>detectOuterBorders\<close> walks inwards from one edge and stops
  at the first line that is not uniform; the border is the number of lines passed.
\<close>

definition detectOuterBorders :: "nat list \<Rightarrow> nat \<Rightarrow> nat \<Rightarrow> int \<Rightarrow> outerBorders" where
  "detectOuterBorders d w h tolerance =
     \<lparr>ob_top = length (takeWhile (\<lambda>y. isUniformRow d w h y tolerance) [0..<h]),
      ob_right = length (takeWhile (\<lambda>x. isUniformColumn d w h x tolerance) (rev [0..<w])),
      ob_bottom = length (takeWhile (\<lambda>y. isUniformRow d w h y tolerance) (rev [0..<h])),
      ob_left = length (takeWhile (\<lambda>x. isUniformColumn d w h x tolerance) [0..<w])\<rparr>"

record dividerGroup =
  g_start :: int
  g_end :: int
  g_center :: int
  g_width :: int
  g_exactCenter :: "rat option"

text \<open>\<open>Math.round((s + e) / 2)\<close> on integers: halves round towards plus infinity.\<close>

definition roundHalf :: "int \<Rightarrow> int" where
  "roundHalf n = (n + 1) div 2"

definition mkGroup :: "int \<Rightarrow> int \<Rightarrow> dividerGroup" where
  "mkGroup groupStart groupEnd =
     \<lparr>g_start = groupStart, g_end = groupEnd, g_center = roundHalf (groupStart + groupEnd),
      g_width = groupEnd - groupStart + 1, g_exactCenter = None\<rparr>"

fun consolidateLoop :: "int list \<Rightarrow> int \<Rightarrow> int \<Rightarrow> dividerGroup list \<Rightarrow> dividerGroup list" where
  "consolidateLoop [] groupStart groupEnd groups = groups @ [mkGroup groupStart groupEnd]"
| "consolidateLoop (d # ds) groupStart groupEnd groups =
     (if d = groupEnd + 1 then consolidateLoop ds groupStart d groups
      else consolidateLoop ds d d (groups @ [mkGroup groupStart groupEnd]))"

definition consolidateDividersToGroups :: "int list \<Rightarrow> dividerGroup list" where
  "consolidateDividersToGroups dividers =
     (case dividers of [] \<Rightarrow> [] | d # ds \<Rightarrow> consolidateLoop ds d d [])"

definition findHorizontalDividers :: "nat list \<Rightarrow> nat \<Rightarrow> nat \<Rightarrow> int \<Rightarrow> dividerGroup list" where
  "findHorizontalDividers d w h tolerance =
     consolidateDividersToGroups
       (map int (filter (\<lambda>y. isUniformRow d w h y tolerance) [0..<h]))"

definition findVerticalDividers :: "nat list \<Rightarrow> nat \<Rightarrow> nat \<Rightarrow> int \<Rightarrow> dividerGroup list" where
  "findVerticalDividers d w h tolerance =
     consolidateDividersToGroups
       (map int (filter (\<lambda>x. isUniformColumn d w h x tolerance) [0..<w]))"

definition refineDividerCenters :: "dividerGroup list \<Rightarrow> dividerGroup list" where
  "refineDividerCenters lineGroups =
     map (\<lambda>g. g\<lparr>g_center := roundHalf (g_start g + g_end g),
                g_exactCenter := Some (of_int (g_start g + g_end g) / 2)\<rparr>) lineGroups"

text \<open>
  The loop of \<open>enforceMinimumGap\<close>: the groups still to visit, the list \<open>filtered\<close> and
  \<open>lastKept\<close> (\<open>None\<close> for \<open>null\<close>).  Replacing the last kept group overwrites the last
  slot of \<open>filtered\<close>.
\<close>

fun enforceLoop :: "dividerGroup list \<Rightarrow> int \<Rightarrow> dividerGroup list \<Rightarrow> dividerGroup option
    \<Rightarrow> dividerGroup list" where
  "enforceLoop [] minGap filtered lastKept = filtered"
| "enforceLoop (current # rest) minGap filtered None =
     enforceLoop rest minGap (filtered @ [current]) (Some current)"
| "enforceLoop (current # rest) minGap filtered (Some kept) =
     (if g_center current - g_center kept \<ge> minGap
      then enforceLoop rest minGap (filtered @ [current]) (Some current)
      else if g_width current > g_width kept
      then enforceLoop rest minGap (filtered[length filtered - 1 := current]) (Some current)
      else enforceLoop rest minGap filtered (Some kept))"

definition enforceMinimumGap :: "dividerGroup list \<Rightarrow> int \<Rightarrow> dividerGroup list" where
  "enforceMinimumGap lineGroups minGap =
     (if lineGroups = [] then [] else enforceLoop lineGroups minGap [] None)"

record cell =
  cell_row :: nat
  cell_col :: nat
  cell_x :: int
  cell_y :: int
  cell_width :: int
  cell_height :: int

definition computeCells :: "int list \<Rightarrow> int list \<Rightarrow> nat \<Rightarrow> nat \<Rightarrow> cell list" where
  "computeCells horizontalLines verticalLines w h =
     (if horizontalLines = [] \<and> verticalLines = []
      then [\<lparr>cell_row = 0, cell_col = 0, cell_x = 0, cell_y = 0,
             cell_width = int w, cell_height = int h\<rparr>]
      else concat (map (\<lambda>row. map (\<lambda>col.
             \<lparr>cell_row = row, cell_col = col,
              cell_x = verticalLines ! col, cell_y = horizontalLines ! row,
              cell_width = verticalLines ! (col + 1) - verticalLines ! col,
              cell_height = horizontalLines ! (row + 1) - horizontalLines ! row\<rparr>)
             [0..<length verticalLines - 1]) [0..<length horizontalLines - 1]))"

datatype segmentType = SegHorizontalLine | SegVerticalLine | SegIntersection

text \<open>
  A segment's id is a prefix followed by the running counter; the pair stands for the
  string \<open>h-line-0\<close>, \<open>v-line-1\<close>, \<open>intersection-2\<close> and so on.
\<close>

record gridLineSegment =
  seg_id :: "string \<times> nat"
  seg_type :: segmentType
  seg_x :: int
  seg_y :: int
  seg_width :: int
  seg_height :: int

definition computeGridLineSegments ::
    "dividerGroup list \<Rightarrow> dividerGroup list \<Rightarrow> nat \<Rightarrow> nat \<Rightarrow> gridLineSegment list" where
  "computeGridLineSegments hGroups vGroups w h =
     (let nh = length hGroups; nv = length vGroups
      in map (\<lambda>(k, g). \<lparr>seg_id = (''h-line-'', k), seg_type = SegHorizontalLine,
                         seg_x = 0, seg_y = g_start g, seg_width = int w,
                         seg_height = g_width g\<rparr>) (zip [0..<nh] hGroups)
       @ map (\<lambda>(k, g). \<lparr>seg_id = (''v-line-'', nh + k), seg_type = SegVerticalLine,
                         seg_x = g_start g, seg_y = 0, seg_width = g_width g,
                         seg_height = int h\<rparr>) (zip [0..<nv] vGroups)
       @ map (\<lambda>(k, hg, vg). \<lparr>seg_id = (''intersection-'', nh + nv + k),
                         seg_type = SegIntersection,
                         seg_x = g_start vg, seg_y = g_start hg, seg_width = g_width vg,
                         seg_height = g_width hg\<rparr>)
           (zip [0..<nh * nv] (concat (map (\<lambda>hg. map (\<lambda>vg. (hg, vg)) vGroups) hGroups))))"

record gridConfig =
  columns :: int
  rows :: int
  horizontalSlices :: "int list"
  verticalSlices :: "int list"
  horizontalLineGroups :: "dividerGroup list"
  verticalLineGroups :: "dividerGroup list"
  cells :: "cell list"
  gridLineSegments :: "gridLineSegment list"
  gridOuterBorders :: outerBorders

definition detectGrid :: "imageData \<Rightarrow> int \<Rightarrow> int \<Rightarrow> int \<Rightarrow> gridConfig" where
  "detectGrid img tolerance minXGap minYGap =
     (let w = width img; h = height img; d = data img;
          filteredHorizontalGroups =
            enforceMinimumGap (refineDividerCenters (findHorizontalDividers d w h tolerance)) minYGap;
          filteredVerticalGroups =
            enforceMinimumGap (refineDividerCenters (findVerticalDividers d w h tolerance)) minXGap;
          hs = map g_center filteredHorizontalGroups;
          vs = map g_center filteredVerticalGroups
      in \<lparr>columns = (if length vs > 0 then int (length vs) - 1 else 1),
          rows = (if length hs > 0 then int (length hs) - 1 else 1),
          horizontalSlices = hs,
          verticalSlices = vs,
          horizontalLineGroups = filteredHorizontalGroups,
          verticalLineGroups = filteredVerticalGroups,
          cells = computeCells hs vs w h,
          gridLineSegments = computeGridLineSegments filteredHorizontalGroups filteredVerticalGroups w h,
          gridOuterBorders = detectOuterBorders d w h tolerance\<rparr>)"


section \<open>Shape decomposer\<close>

record bounds =
  b_x :: int
  b_y :: int
  b_width :: int
  b_height :: int

text \<open>
  \<open>findContentBounds\<close>: the two nested loops carry \<open>(minX, minY, maxX, maxY)\<close>, starting
  from \<open>(width, height, 0, 0)\<close>; the result is \<open>null\<close> (\<open>None\<close>) when \<open>maxX < minX\<close>.
\<close>

definition boundsStep :: "nat list \<Rightarrow> nat \<Rightarrow> nat \<Rightarrow> nat \<Rightarrow> int \<times> int \<times> int \<times> int
    \<Rightarrow> int \<times> int \<times> int \<times> int" where
  "boundsStep d w y x acc =
     (case acc of (minX, minY, maxX, maxY) \<Rightarrow>
        if js_gt (alphaAt d w (int y) (int x)) 0
        then (min minX (int x), min minY (int y), max maxX (int x), max maxY (int y))
        else acc)"

definition boundsScan :: "imageData \<Rightarrow> int \<times> int \<times> int \<times> int" where
  "boundsScan img =
     fold (\<lambda>y acc. fold (boundsStep (data img) (width img) y) [0..<width img] acc)
       [0..<height img] (int (width img), int (height img), 0, 0)"

definition findContentBounds :: "imageData \<Rightarrow> bounds option" where
  "findContentBounds img =
     (case boundsScan img of (minX, minY, maxX, maxY) \<Rightarrow>
        if maxX < minX then None
        else Some \<lparr>b_x = minX, b_y = minY, b_width = maxX - minX + 1,
                   b_height = maxY - minY + 1\<rparr>)"

datatype shapeType = HorizontalLineType | VerticalLineType | RectangleType | RoundedRectangleType

record cornerRadii =
  topLeft :: int
  topRight :: int
  bottomLeft :: int
  bottomRight :: int

text \<open>
  The shape objects, one constructor per value of their \<open>type\<close> field.  A line carries
  \<open>x y length thickness color\<close>; a rectangle \<open>x y width height color cornerRadius\<close>; a
  rounded rectangle carries the four corner radii as well.
\<close>

datatype shape =
    HorizontalLine int int int int color
  | VerticalLine int int int int color
  | Rectangle int int int int color int
  | RoundedRectangle int int int int color int cornerRadii

fun shapeTypeOf :: "shape \<Rightarrow> shapeType" where
  "shapeTypeOf (HorizontalLine x y len thickness c) = HorizontalLineType"
| "shapeTypeOf (VerticalLine x y len thickness c) = VerticalLineType"
| "shapeTypeOf (Rectangle x y w h c r) = RectangleType"
| "shapeTypeOf (RoundedRectangle x y w h c r rs) = RoundedRectangleType"

fun lineLength :: "shape \<Rightarrow> int option" where
  "lineLength (HorizontalLine x y len thickness c) = Some len"
| "lineLength (VerticalLine x y len thickness c) = Some len"
| "lineLength s = None"

text \<open>
  \<open>lineLength > bounds.width * 0.8\<close>, on integers, is \<open>5 * lineLength > 4 * width\<close>:
  the double nearest to 0.8 times an integer below \<open>2^50\<close> rounds to the exact
  product when that is an integer and stays on its side of every integer otherwise.
\<close>

definition longerThan80 :: "int \<Rightarrow> int \<Rightarrow> bool" where
  "longerThan80 len extent = (4 * extent < 5 * len)"

text \<open>
  One step of the inner loop of \<open>detectHorizontalLines\<close> at column \<open>x\<close> of row \<open>y\<close>;
  the state is \<open>(lineStart, lineColor, lines)\<close>.  The loop runs one column past the
  bounds, where alpha counts as 0.
\<close>

definition hLineStep :: "nat list \<Rightarrow> nat \<Rightarrow> bounds \<Rightarrow> int \<Rightarrow> int
    \<Rightarrow> int option \<times> color option \<times> shape list \<Rightarrow> int option \<times> color option \<times> shape list" where
  "hLineStep d w b y x st =
     (case st of (lineStart, lineColor, lines) \<Rightarrow>
        let alpha = (if x < b_x b + b_width b then alphaAt d w y x else Some 0)
        in if js_gt alpha 0 \<and> lineStart = None
           then (Some x, Some (colorAt d w y x), lines)
           else if (js_eq alpha 0 \<or> x = b_x b + b_width b) \<and> lineStart \<noteq> None
           then (let len = x - the lineStart
                 in (None, None,
                     if longerThan80 len (b_width b)
                     then lines @ [HorizontalLine (the lineStart) y len 1 (the lineColor)]
                     else lines))
           else st)"

definition consolidateLines :: "shape list \<Rightarrow> shape list" where
  "consolidateLines lines = lines"

definition detectHorizontalLines :: "imageData \<Rightarrow> bounds \<Rightarrow> shape list" where
  "detectHorizontalLines img b =
     consolidateLines
       (fold (\<lambda>y lines. snd (snd (fold (hLineStep (data img) (width img) b y)
                                       [b_x b .. b_x b + b_width b] (None, None, lines))))
          [b_y b .. b_y b + b_height b - 1] [])"

definition vLineStep :: "nat list \<Rightarrow> nat \<Rightarrow> bounds \<Rightarrow> int \<Rightarrow> int
    \<Rightarrow> int option \<times> color option \<times> shape list \<Rightarrow> int option \<times> color option \<times> shape list" where
  "vLineStep d w b x y st =
     (case st of (lineStart, lineColor, lines) \<Rightarrow>
        let alpha = (if y < b_y b + b_height b then alphaAt d w y x else Some 0)
        in if js_gt alpha 0 \<and> lineStart = None
           then (Some y, Some (colorAt d w y x), lines)
           else if (js_eq alpha 0 \<or> y = b_y b + b_height b) \<and> lineStart \<noteq> None
           then (let len = y - the lineStart
                 in (None, None,
                     if longerThan80 len (b_height b)
                     then lines @ [VerticalLine x (the lineStart) len 1 (the lineColor)]
                     else lines))
           else st)"

definition detectVerticalLines :: "imageData \<Rightarrow> bounds \<Rightarrow> shape list" where
  "detectVerticalLines img b =
     consolidateLines
       (fold (\<lambda>x lines. snd (snd (fold (vLineStep (data img) (width img) b x)
                                       [b_y b .. b_y b + b_height b] (None, None, lines))))
          [b_x b .. b_x b + b_width b - 1] [])"

text \<open>
  \<open>filledPixels / totalPixels > 0.95\<close>.  A zero total gives NaN or Infinity; otherwise
  the quotient is compared exactly (the double quotient of two integers below \<open>2^50\<close> is on
  the same side of the double 0.95 as the fraction is of 19/20).
\<close>

definition moreThan95 :: "int \<Rightarrow> int \<Rightarrow> bool" where
  "moreThan95 filledPixels totalPixels =
     (if totalPixels = 0 then 0 < filledPixels
      else (19 / 20 :: rat) < of_int filledPixels / of_int totalPixels)"

definition checkIfRectangle :: "imageData \<Rightarrow> bounds \<Rightarrow> bool" where
  "checkIfRectangle img b =
     (let filledPixels =
            fold (\<lambda>y n. fold (\<lambda>x n.
                    if js_gt (alphaAt (data img) (width img) y x) 200 then n + 1 else n)
                  [b_x b .. b_x b + b_width b - 1] n)
              [b_y b .. b_y b + b_height b - 1] (0 :: int);
          totalPixels = b_width b * b_height b
      in moreThan95 filledPixels totalPixels)"

definition sampleDominantColor :: "imageData \<Rightarrow> bounds \<Rightarrow> color" where
  "sampleDominantColor img b =
     (let centerX = b_x b + b_width b div 2;
          centerY = b_y b + b_height b div 2
      in colorAt (data img) (width img) centerY centerX)"

definition detectRectangles :: "imageData \<Rightarrow> bounds \<Rightarrow> shape list" where
  "detectRectangles img b =
     (if checkIfRectangle img b
      then [Rectangle (b_x b) (b_y b) (b_width b) (b_height b) (sampleDominantColor img b) 0]
      else [])"

datatype cornerName = TopLeft | TopRight | BottomLeft | BottomRight

fun diagonals :: "cornerName \<Rightarrow> int \<times> int" where
  "diagonals TopLeft = (1, 1)"
| "diagonals TopRight = (-1, 1)"
| "diagonals BottomLeft = (1, -1)"
| "diagonals BottomRight = (-1, -1)"

definition measureCornerRadius :: "imageData \<Rightarrow> int \<times> int \<Rightarrow> int \<Rightarrow> cornerName \<Rightarrow> int" where
  "measureCornerRadius img corner sampleSize name =
     (case diagonals name of (dx, dy) \<Rightarrow>
        let startX = (if dx = 1 then fst corner else fst corner + sampleSize - 1);
            startY = (if dy = 1 then snd corner else snd corner + sampleSize - 1)
        in case find (\<lambda>i. js_gt (alphaAt (data img) (width img) (startY + dy * i)
                                    (startX + dx * i)) 128)
               [0 .. sampleSize - 1] of
             Some i \<Rightarrow> i
           | None \<Rightarrow> 0)"

text \<open>\<open>Math.round(t / n)\<close> for a sum \<open>t \<ge> 0\<close> of \<open>n > 0\<close> radii.\<close>

definition roundDiv :: "int \<Rightarrow> int \<Rightarrow> int" where
  "roundDiv t n = (2 * t + n) div (2 * n)"

record cornerAnalysis =
  hasRounding :: bool
  radius :: int
  individual :: cornerRadii

definition analyzeCorners :: "imageData \<Rightarrow> bounds \<Rightarrow> cornerAnalysis" where
  "analyzeCorners img b =
     (let sampleSize = min 20 (min (b_width b) (b_height b) div 4);
          tl = measureCornerRadius img (b_x b, b_y b) sampleSize TopLeft;
          tr = measureCornerRadius img (b_x b + b_width b - sampleSize, b_y b) sampleSize TopRight;
          bl = measureCornerRadius img (b_x b, b_y b + b_height b - sampleSize) sampleSize BottomLeft;
          br = measureCornerRadius img
                 (b_x b + b_width b - sampleSize, b_y b + b_height b - sampleSize) sampleSize
                 BottomRight;
          rounded = filter (\<lambda>r. 0 < r) [tl, tr, bl, br];
          totalRadius = sum_list rounded;
          roundedCorners = int (length rounded)
      in \<lparr>hasRounding = (0 < roundedCorners),
          radius = (if 0 < roundedCorners then roundDiv totalRadius roundedCorners else 0),
          individual = \<lparr>topLeft = tl, topRight = tr, bottomLeft = bl, bottomRight = br\<rparr>\<rparr>)"

definition detectRoundedRectangles :: "imageData \<Rightarrow> bounds \<Rightarrow> shape list" where
  "detectRoundedRectangles img b =
     (let corners = analyzeCorners img b
      in if hasRounding corners
         then [RoundedRectangle (b_x b) (b_y b) (b_width b) (b_height b)
                 (sampleDominantColor img b) (radius corners) (individual corners)]
         else [])"

record shapeAnalysis =
  shapes :: "shape list"
  sa_bounds :: "bounds option"
  isEmpty :: bool

definition decomposeIntoShapes :: "imageData \<Rightarrow> shapeAnalysis" where
  "decomposeIntoShapes img =
     (case findContentBounds img of
        None \<Rightarrow> \<lparr>shapes = [], sa_bounds = None, isEmpty = True\<rparr>
      | Some b \<Rightarrow>
          let roundedRects = detectRoundedRectangles img b;
              first = (if length roundedRects > 0 then roundedRects else detectRectangles img b);
              found = first @ detectHorizontalLines img b @ detectVerticalLines img b
          in \<lparr>shapes = found, sa_bounds = Some b, isEmpty = (length found = 0)\<rparr>)"

text \<open>An image all of whose pixels have alpha above 200.\<close>

definition opaqueImage :: "imageData \<Rightarrow> bool" where
  "opaqueImage img =
     (\<forall>x y. 0 \<le> x \<and> x < int (width img) \<and> 0 \<le> y \<and> y < int (height img)
        \<longrightarrow> js_gt (alphaAt (data img) (width img) y x) 200)"

text \<open>
  Fixtures: the 50x4 fully opaque red strip, and a 2x2 image whose only opaque pixels are
  the two on the main diagonal.
\<close>

definition redPixels :: "nat \<Rightarrow> nat list" where
  "redPixels n = concat (replicate n [255, 0, 0, 255])"

definition redStrip :: imageData where
  "redStrip = \<lparr>width = 50, height = 4, data = redPixels 200\<rparr>"

definition red :: color where
  "red = \<lparr>c_r = Some 255, c_g = Some 0, c_b = Some 0, c_a = Some 255\<rparr>"

definition diagonalDots :: imageData where
  "diagonalDots = \<lparr>width = 2, height = 2, data =
     [0,0,0,255, 0,0,0,0,
      0,0,0,0,   0,0,0,255]\<rparr>"

text \<open>An image without any pixel of alpha above 0.\<close>

definition noContent :: "imageData \<Rightarrow> bool" where
  "noContent img =
     (\<forall>x y. x < width img \<and> y < height img
        \<longrightarrow> \<not> js_gt (alphaAt (data img) (width img) (int y) (int x)) 0)"

text \<open>
  More fixtures: one coloured but fully transparent pixel, a buffer of width 0 and
  height 3, a buffer of height 0 that carries one pixel's bytes, and a buffer of width 0
  and height 0 that carries one opaque pixel's bytes.
\<close>

definition clearPixel :: imageData where
  "clearPixel = \<lparr>width = 1, height = 1, data = [9, 9, 9, 0]\<rparr>"





section \<open>Background remover\<close>

text \<open>
  \<open>removeBackground\<close> reads the removal aggressiveness from the global settings object;
  it is a parameter here, an integer as the tolerance is.  Thresholds that the script
  computes with fractions (\<open>0.3 - aggressiveness / 500\<close>, \<open>255 - aggressiveness * 1.5\<close>)
  are rationals; where the script's double arithmetic does not give the fraction, the
  comparison is written as the doubles decide it (see \<open>isShadowLike\<close>).
\<close>

definition transparentNeighbors :: "nat list \<Rightarrow> int \<Rightarrow> int \<Rightarrow> nat \<Rightarrow> nat \<Rightarrow> nat" where
  "transparentNeighbors d x y w h =
     length (filter (\<lambda>(dx, dy).
                let nx = x + dx; ny = y + dy
                in 0 \<le> nx \<and> nx < int w \<and> 0 \<le> ny \<and> ny < int h \<and> js_eq (alphaAt d w ny nx) 0)
              [(-1, 0), (1, 0), (0, -1), (0, 1)])"

definition isShadowPixel :: "nat list \<Rightarrow> int \<Rightarrow> int \<Rightarrow> nat \<Rightarrow> nat \<Rightarrow> bool" where
  "isShadowPixel d x y w h =
     (let currentAlpha = alphaAt d w y x
      in 2 \<le> transparentNeighbors d x y w h \<and> js_lt currentAlpha 128)"

text \<open>
  The body of the pixel loop of \<open>removeShadowsAlongSlices\<close>; the buffer is updated in
  place, so every step sees the writes of the steps before it.
\<close>

definition shadowStep :: "nat \<Rightarrow> nat \<Rightarrow> int \<Rightarrow> int \<Rightarrow> nat list \<Rightarrow> nat list" where
  "shadowStep w h y x d =
     (if js_gt (alphaAt d w y x) 0 \<and> js_lt (alphaAt d w y x) 200 \<and> isShadowPixel d x y w h
      then wr d (pixelIndex w y x + 3) 0
      else d)"

definition removeShadowsAlongSlices :: "imageData \<Rightarrow> int list \<Rightarrow> int \<Rightarrow> imageData" where
  "removeShadowsAlongSlices img sliceLines shadowWidth =
     img\<lparr>data :=
       fold (\<lambda>sliceLine d.
               fold (\<lambda>y d. fold (shadowStep (width img) (height img) y) [0 .. int (width img) - 1] d)
                 [max 0 (sliceLine - shadowWidth) ..
                  min (int (height img)) (sliceLine + shadowWidth) - 1] d)
         sliceLines (data img)\<rparr>"

definition sampleBackgroundPoints :: "imageData \<Rightarrow> color list" where
  "sampleBackgroundPoints img =
     (let w = int (width img); h = int (height img);
          inset = min 3 (min w h div 4);
          cornerPoints =
            [(0, 0), (w - 1, 0), (0, h - 1), (w - 1, h - 1)] @
            (if w > inset * 2 \<and> h > inset * 2
             then [(inset, inset), (w - 1 - inset, inset), (inset, h - 1 - inset),
                   (w - 1 - inset, h - 1 - inset)]
             else [])
      in map (\<lambda>(x, y). colorAt (data img) (width img) y x) cornerPoints)"

text \<open>
  \<open>Math.sqrt(n) <= t\<close> for an integer \<open>n \<ge> 0\<close> and an integer \<open>t\<close>: the square root is
  rounded correctly and \<open>t\<close> is a double, so the test is \<open>0 \<le> t \<and> n \<le> t\<^sup>2\<close>.  A channel that
  is \<open>undefined\<close> makes the distance NaN and the test false.
\<close>

definition rgbWithin :: "color \<Rightarrow> color \<Rightarrow> int \<Rightarrow> bool" where
  "rgbWithin p q t =
     (case (c_r p, c_g p, c_b p, c_r q, c_g q, c_b q) of
        (Some r1, Some g1, Some b1, Some r2, Some g2, Some b2) \<Rightarrow>
          0 \<le> t \<and> (int r1 - int r2)\<^sup>2 + (int g1 - int g2)\<^sup>2 + (int b1 - int b2)\<^sup>2 \<le> t\<^sup>2
      | _ \<Rightarrow> False)"

fun addToGroups :: "color \<Rightarrow> color list list \<Rightarrow> color list list" where
  "addToGroups c [] = [[c]]"
| "addToGroups c (g # gs) =
     (if rgbWithin c (hd g) 20 then (g @ [c]) # gs else g # addToGroups c gs)"

text \<open>The channel average \<open>Math.round(sum / n)\<close>; an \<open>undefined\<close> summand gives NaN.\<close>

definition averageChannel :: "nat option list \<Rightarrow> nat option" where
  "averageChannel vs =
     (if list_all (\<lambda>v. v \<noteq> None) vs
      then Some ((2 * sum_list (map the vs) + length vs) div (2 * length vs))
      else None)"

definition findMostCommonColor :: "color list \<Rightarrow> color" where
  "findMostCommonColor colors =
     (if colors = [] then \<lparr>c_r = Some 255, c_g = Some 255, c_b = Some 255, c_a = Some 255\<rparr>
      else
        let colorGroups = fold addToGroups colors [];
            largestGroup = fold (\<lambda>g best. if length g > length best then g else best)
                             colorGroups (hd colorGroups)
        in \<lparr>c_r = averageChannel (map c_r largestGroup),
            c_g = averageChannel (map c_g largestGroup),
            c_b = averageChannel (map c_b largestGroup),
            c_a = averageChannel (map c_a largestGroup)\<rparr>)"

text \<open>
  The candidate test of \<open>createBackgroundMask\<close> for the pixel with number \<open>i\<close>
  (row-major), and the mask before the flood fill.
\<close>

definition isCandidate :: "nat list \<Rightarrow> color \<Rightarrow> int \<Rightarrow> nat \<Rightarrow> bool" where
  "isCandidate d backgroundColor tolerance i =
     rgbWithin (pixelAt d (int i * 4)) backgroundColor tolerance"

definition candidateMask :: "imageData \<Rightarrow> color \<Rightarrow> int \<Rightarrow> nat list" where
  "candidateMask img backgroundColor tolerance =
     map (\<lambda>i. if isCandidate (data img) backgroundColor tolerance i then 1 else 0)
       [0..<width img * height img]"

text \<open>
  \<open>floodFillFromEdges\<close>.  The queue starts with the indices of the four edges.  One
  iteration takes the front index; unless it is visited or its mask entry is 0, it marks
  it and appends its neighbours.  The tests on \<open>x = index % width\<close> and
  \<open>y = Math.floor(index / width)\<close> are written out for \<open>width = 0\<close> as well, where \<open>x\<close> is
  NaN and \<open>y\<close> is NaN or infinite.  The loop need not end on every input, so it is a
  partial function: \<open>None\<close> stands for a run that never returns.
\<close>

definition initialQueue :: "nat \<Rightarrow> nat \<Rightarrow> int list" where
  "initialQueue w h =
     concat (map (\<lambda>x. [int x, (int h - 1) * int w + int x]) [0..<w]) @
     concat (map (\<lambda>y. [int y * int w, int y * int w + int w - 1]) [0..<h])"

definition neighbours :: "nat \<Rightarrow> nat \<Rightarrow> int \<Rightarrow> int list" where
  "neighbours w h index =
     (let x = (if 0 \<le> index then index mod int w else - ((- index) mod int w));
          y = index div int w
      in (if w \<noteq> 0 \<and> x > 0 then [index - 1] else []) @
         (if w \<noteq> 0 \<and> x < int w - 1 then [index + 1] else []) @
         (if (if w = 0 then index > 0 else y > 0) then [index - int w] else []) @
         (if (if w = 0 then index < 0 else y < int h - 1) then [index + int w] else []))"

definition truthy :: "nat option \<Rightarrow> bool" where
  "truthy v = (case v of None \<Rightarrow> False | Some n \<Rightarrow> n \<noteq> 0)"

partial_function (option) floodLoop ::
    "nat list \<Rightarrow> nat \<Rightarrow> nat \<Rightarrow> int list \<Rightarrow> nat list \<Rightarrow> nat list \<Rightarrow> nat list option" where
  "floodLoop maskArr w h queue visited result =
     (case queue of
        [] \<Rightarrow> Some result
      | index # rest \<Rightarrow>
          if truthy (rd visited index) \<or> js_eq (rd maskArr index) 0
          then floodLoop maskArr w h rest visited result
          else floodLoop maskArr w h (rest @ neighbours w h index)
                 (wr visited index 1) (wr result index 1))"

text \<open>The two cases of the loop, as the equations it is run with.\<close>

lemma floodLoop_code [code]:
  "floodLoop maskArr w h [] visited result = Some result"
  "floodLoop maskArr w h (index # rest) visited result =
     (if truthy (rd visited index) \<or> js_eq (rd maskArr index) 0
      then floodLoop maskArr w h rest visited result
      else floodLoop maskArr w h (rest @ neighbours w h index)
             (wr visited index 1) (wr result index 1))"
  by (subst floodLoop.simps, simp)+

definition floodFillFromEdges :: "nat list \<Rightarrow> nat \<Rightarrow> nat \<Rightarrow> nat list option" where
  "floodFillFromEdges maskArr w h =
     floodLoop maskArr w h (initialQueue w h) (replicate (w * h) 0) (replicate (w * h) 0)"

definition createBackgroundMask :: "imageData \<Rightarrow> color \<Rightarrow> int \<Rightarrow> nat list option" where
  "createBackgroundMask img backgroundColor tolerance =
     floodFillFromEdges (candidateMask img backgroundColor tolerance) (width img) (height img)"

definition applyTransparencyMask :: "nat list \<Rightarrow> nat list \<Rightarrow> nat list" where
  "applyTransparencyMask d maskArr =
     fold (\<lambda>i d. if maskArr ! i = 1 then wr d (int i * 4 + 3) 0 else d) [0..<length maskArr] d"

text \<open>
  Saturation and brightness tests on a pixel's channels; an \<open>undefined\<close> channel makes
  every one of them false.

  The script computes \<open>saturationThreshold = 0.3 - aggressiveness / 500\<close> in double
  precision.  The saturation is a fraction with denominator at most 255 and the exact
  threshold one with denominator 500, so when they differ they differ by at least
  \<open>1 / 127500\<close>, and the doubles compare as the fractions do.  When they are equal, the
  saturation is the double nearest to the fraction, and the computed threshold lies above
  it at exactly the integers of \<open>thresholdRoundedUp\<close> (elsewhere it is that double or
  lies below it); there \<open>saturation < saturationThreshold\<close> is true in the script.  The
  comparisons against 0.3, 150 and 200 have no such case: the literal 0.3 is the double
  nearest to 3/10, and a brightness equal to 150 or 200 is computed exactly.
\<close>

definition thresholdRoundedUp :: "int list" where
  "thresholdRoundedUp =
     [-280, -278, -276, -275, -274, -272, -270, -268, -266, -265, -264, -262, -260, -258,
      -140, -138, -136, -135, -134, -132, 142, 144, 145, 146, 148]"

definition belowSaturationThreshold :: "rat \<Rightarrow> int \<Rightarrow> bool" where
  "belowSaturationThreshold saturation aggressiveness =
     (let saturationThreshold = 3 / 10 - of_int aggressiveness / 500
      in saturation < saturationThreshold \<or>
         (saturation = saturationThreshold \<and> aggressiveness \<in> set thresholdRoundedUp))"

definition saturationOf :: "nat \<Rightarrow> nat \<Rightarrow> nat \<Rightarrow> rat" where
  "saturationOf r g b =
     (let mx = max r (max g b); mn = min r (min g b)
      in if mx = 0 then 0 else (of_nat mx - of_nat mn) / of_nat mx)"

definition brightnessOf :: "nat \<Rightarrow> nat \<Rightarrow> nat \<Rightarrow> rat" where
  "brightnessOf r g b = of_nat (r + g + b) / 3"

definition isShadowLike :: "color \<Rightarrow> int \<Rightarrow> bool" where
  "isShadowLike c aggressiveness =
     (case (c_r c, c_g c, c_b c) of
        (Some r, Some g, Some b) \<Rightarrow>
          belowSaturationThreshold (saturationOf r g b) aggressiveness \<and>
          brightnessOf r g b < 200
      | _ \<Rightarrow> False)"

definition isStrong :: "color \<Rightarrow> bool" where
  "isStrong c =
     (case (c_r c, c_g c, c_b c) of
        (Some r, Some g, Some b) \<Rightarrow> 3 / 10 < saturationOf r g b \<or> 150 < brightnessOf r g b
      | _ \<Rightarrow> False)"

definition checkForStrongNeighbor :: "nat list \<Rightarrow> int \<Rightarrow> int \<Rightarrow> nat \<Rightarrow> nat \<Rightarrow> bool" where
  "checkForStrongNeighbor d x y w h =
     list_ex (\<lambda>(dx, dy).
                let nx = x + dx; ny = y + dy
                in 0 \<le> nx \<and> nx < int w \<and> 0 \<le> ny \<and> ny < int h \<and>
                   js_eq (alphaAt d w ny nx) 255 \<and> isStrong (colorAt d w ny nx))
       [(-1, 0), (1, 0), (0, -1), (0, 1), (-1, -1), (1, 1), (-1, 1), (1, -1)]"

definition checkAndRemoveGradient :: "nat \<Rightarrow> nat \<Rightarrow> int \<Rightarrow> int \<Rightarrow> int \<Rightarrow> nat list \<Rightarrow> nat list" where
  "checkAndRemoveGradient w h aggressiveness x y d =
     (if x < 0 \<or> x \<ge> int w \<or> y < 0 \<or> y \<ge> int h then d
      else let alpha = alphaAt d w y x
           in if js_eq alpha 0 then d
              else if js_lt alpha 250 then wr d (pixelIndex w y x + 3) 0
              else if isShadowLike (colorAt d w y x) aggressiveness \<and>
                      \<not> checkForStrongNeighbor d x y w h
              then wr d (pixelIndex w y x + 3) 0
              else d)"

definition removeGradientShadows :: "nat \<Rightarrow> nat \<Rightarrow> int \<Rightarrow> nat list \<Rightarrow> nat list" where
  "removeGradientShadows w h aggressiveness d =
     (let scanDepth = max 3 (min 15 (aggressiveness div 6))
      in fold (\<lambda>depth d.
                 fold (\<lambda>y d. checkAndRemoveGradient w h aggressiveness (int w - 1 - depth) y
                               (checkAndRemoveGradient w h aggressiveness depth y d))
                   [0 .. int h - 1]
                   (fold (\<lambda>x d. checkAndRemoveGradient w h aggressiveness x (int h - 1 - depth)
                                  (checkAndRemoveGradient w h aggressiveness x depth d))
                      [0 .. int w - 1] d))
           [0 .. scanDepth - 1] d)"

definition removeSemiTransparentPixels :: "nat \<Rightarrow> nat \<Rightarrow> int \<Rightarrow> nat list \<Rightarrow> nat list" where
  "removeSemiTransparentPixels w h aggressiveness d =
     (let alphaThreshold = max 200 (255 - of_int aggressiveness * 3 / 2 :: rat)
      in fold (\<lambda>i d.
                 case rd d (int i * 4 + 3) of
                   None \<Rightarrow> d
                 | Some alpha \<Rightarrow>
                     if 0 < alpha \<and> of_nat alpha < alphaThreshold \<and>
                        isShadowPixel d (int (i mod w)) (int (i div w)) w h
                     then wr d (int i * 4 + 3) 0
                     else d)
           [0..<w * h] d)"

text \<open>
  \<open>new ImageData(array, width, height)\<close> is the browser's constructor: it throws unless
  the array length is a non-zero multiple of four and equals \<open>4 * width * height\<close>.
  \<open>removeBackground\<close> calls it first, so everything after it runs on a valid buffer.
\<close>

datatype error = InvalidStateError | IndexSizeError

definition newImageData :: "nat list \<Rightarrow> nat \<Rightarrow> nat \<Rightarrow> error + imageData" where
  "newImageData d w h =
     (if length d = 0 \<or> length d mod 4 \<noteq> 0 then Inl InvalidStateError
      else if w = 0 \<or> (length d div 4) mod w \<noteq> 0 \<or> (length d div 4) div w \<noteq> h
      then Inl IndexSizeError
      else Inr \<lparr>width = w, height = h, data = d\<rparr>)"

text \<open>The mask \<open>removeBackground\<close> builds, from the colour it detects at the corners.\<close>

definition backgroundMask :: "imageData \<Rightarrow> int \<Rightarrow> int \<Rightarrow> nat list option" where
  "backgroundMask img tolerance aggressiveness =
     createBackgroundMask img (findMostCommonColor (sampleBackgroundPoints img))
       (max tolerance (aggressiveness * 2))"

text \<open>
  \<open>removeBackground\<close>: \<open>None\<close> when the flood fill does not return, \<open>Inl\<close> when the
  constructor throws, otherwise the cleaned copy.
\<close>

definition removeBackground :: "imageData \<Rightarrow> int \<Rightarrow> int \<Rightarrow> (error + imageData) option" where
  "removeBackground img tolerance aggressiveness =
     (case newImageData (data img) (width img) (height img) of
        Inl e \<Rightarrow> Some (Inl e)
      | Inr result \<Rightarrow>
          (case backgroundMask result tolerance aggressiveness of
             None \<Rightarrow> None
           | Some maskArr \<Rightarrow>
               let d1 = applyTransparencyMask (data result) maskArr;
                   d2 = removeGradientShadows (width img) (height img) (max aggressiveness 25) d1;
                   d3 = removeSemiTransparentPixels (width img) (height img)
                          (max aggressiveness 30) d2
               in Some (Inr (result\<lparr>data := d3\<rparr>))))"

text \<open>
  The repository holds a second, plainer \<open>removeBackground\<close> (in
  \<open>src/background-remover.js\<close>): it takes the colour of the first corner as the
  background, builds the same mask with the tolerance it is given, and applies it.
\<close>

definition sampleCorners :: "imageData \<Rightarrow> color list" where
  "sampleCorners img =
     (let w = int (width img); h = int (height img)
      in map (\<lambda>(x, y). colorAt (data img) (width img) y x)
           [(0, 0), (w - 1, 0), (0, h - 1), (w - 1, h - 1)])"

definition findDominantColor :: "color list \<Rightarrow> color" where
  "findDominantColor colors = hd colors"

definition removeBackgroundBasic :: "imageData \<Rightarrow> int \<Rightarrow> (error + imageData) option" where
  "removeBackgroundBasic img tolerance =
     (case newImageData (data img) (width img) (height img) of
        Inl e \<Rightarrow> Some (Inl e)
      | Inr result \<Rightarrow>
          (case createBackgroundMask result (findDominantColor (sampleCorners img)) tolerance of
             None \<Rightarrow> None
           | Some maskArr \<Rightarrow>
               Some (Inr (result\<lparr>data := applyTransparencyMask (data result) maskArr\<rparr>))))"

text \<open>
  Pixels by their row-major number \<open>i\<close>: column \<open>i mod w\<close>, row \<open>i div w\<close>.  A pixel is on
  the border when it lies in the first or last column or row; two pixels are adjacent
  when they are 4-connected neighbours.  \<open>reachable m w h i\<close> says that pixel \<open>i\<close> is
  joined to a border pixel by a 4-connected path all of whose pixels, both ends
  included, have a non-zero entry in the mask \<open>m\<close>.
\<close>

definition onBorder :: "nat \<Rightarrow> nat \<Rightarrow> nat \<Rightarrow> bool" where
  "onBorder w h i = (i mod w = 0 \<or> i mod w = w - 1 \<or> i div w = 0 \<or> i div w = h - 1)"

definition adjacent :: "nat \<Rightarrow> nat \<Rightarrow> nat \<Rightarrow> bool" where
  "adjacent w i j =
     ((i div w = j div w \<and> (i mod w = j mod w + 1 \<or> j mod w = i mod w + 1)) \<or>
      (i mod w = j mod w \<and> (i div w = j div w + 1 \<or> j div w = i div w + 1)))"

inductive reachable :: "nat list \<Rightarrow> nat \<Rightarrow> nat \<Rightarrow> nat \<Rightarrow> bool" for m w h where
  edge: "i < w * h \<Longrightarrow> m ! i \<noteq> 0 \<Longrightarrow> onBorder w h i \<Longrightarrow> reachable m w h i"
| step: "reachable m w h i \<Longrightarrow> adjacent w i j \<Longrightarrow> j < w * h \<Longrightarrow> m ! j \<noteq> 0
         \<Longrightarrow> reachable m w h j"

text \<open>The buffers the \<open>ImageData\<close> constructor accepts.\<close>

definition validBuffer :: "imageData \<Rightarrow> bool" where
  "validBuffer img =
     (0 < width img \<and> 0 < height img \<and> length (data img) = 4 * width img * height img)"

text \<open>
  Fixture for the flood fill: a 3x3 image with white corners and a white centre pixel
  (number 4) whose four neighbours are black.
\<close>

definition checker :: imageData where
  "checker = \<lparr>width = 3, height = 3, data =
     [255,255,255,255, 0,0,0,255,       255,255,255,255,
      0,0,0,255,       255,255,255,255, 0,0,0,255,
      255,255,255,255, 0,0,0,255,       255,255,255,255]\<rparr>"

text \<open>
  The frame condition of the cleaning passes: the buffer keeps its length, and every
  byte keeps its value unless it is an alpha byte (offset 3 of its pixel), which may
  have become 0.
\<close>

definition onlyClears :: "nat list \<Rightarrow> nat list \<Rightarrow> bool" where
  "onlyClears d d' =
     (length d' = length d \<and>
      (\<forall>i. i < length d \<longrightarrow> d' ! i = d ! i \<or> (i mod 4 = 3 \<and> d' ! i = 0)))"

text \<open>
  Fixture for the shadow pass: a 3x3 buffer with an opaque middle row, a pixel of alpha
  150 in the middle of the top row and one of alpha 100 in the middle of the bottom row,
  each between two transparent pixels.
\<close>

definition shadowTest :: imageData where
  "shadowTest = \<lparr>width = 3, height = 3, data =
     [0,0,0,0,       9,9,9,150,     0,0,0,0,
      9,9,9,255,     9,9,9,255,     9,9,9,255,
      0,0,0,0,       9,9,9,100,     0,0,0,0]\<rparr>"

text \<open>
  What consolidation guarantees about the groups when the divider coordinates come in
  increasing order: every group is a non-empty interval and consecutive groups are
  disjoint.
\<close>

definition groupsSeparated :: "dividerGroup list \<Rightarrow> bool" where
  "groupsSeparated gs =
     (sorted_wrt (\<lambda>a b. g_end a < g_start b) gs \<and> (\<forall>g \<in> set gs. g_start g \<le> g_end g))"

text \<open>Fixtures: a single opaque pixel, and a white 3x3 image with a black centre.\<close>

definition onePixel :: imageData where
  "onePixel = \<lparr>width = 1, height = 1, data = [0, 0, 0, 255]\<rparr>"

definition framedDot :: imageData where
  "framedDot = \<lparr>width = 3, height = 3, data =
     [255,255,255,255, 255,255,255,255, 255,255,255,255,
      255,255,255,255, 0,0,0,255,       255,255,255,255,
      255,255,255,255, 255,255,255,255, 255,255,255,255]\<rparr>"

definition threeBands :: "dividerGroup list" where
  "threeBands = [mkGroup 0 0, mkGroup 2 2, mkGroup 5 6]"


section \<open>Properties of the grid detector\<close>

lemma roundHalf_between: "s \<le> e \<Longrightarrow> s \<le> roundHalf (s + e) \<and> roundHalf (s + e) \<le> e"
  unfolding roundHalf_def by linarith

lemma consolidateLoop_separated:
  "groupsSeparated groups \<Longrightarrow> \<forall>g \<in> set groups. g_end g < groupStart \<Longrightarrow>
   groupStart \<le> groupEnd \<Longrightarrow> sorted_wrt (<) (groupEnd # ds) \<Longrightarrow>
   groupsSeparated (consolidateLoop ds groupStart groupEnd groups)"
proof (induction ds arbitrary: groupStart groupEnd groups)
  case Nil
  then show ?case
    by (auto simp: groupsSeparated_def sorted_wrt_append mkGroup_def)
next
  case (Cons d ds)
  show ?case
  proof (cases "d = groupEnd + 1")
    case True
    have "groupsSeparated (consolidateLoop ds groupStart d groups)"
      using Cons.prems True by (intro Cons.IH) auto
    then show ?thesis using True by simp
  next
    case False
    have sep: "groupsSeparated (groups @ [mkGroup groupStart groupEnd])"
      using Cons.prems by (auto simp: groupsSeparated_def sorted_wrt_append mkGroup_def)
    have "groupsSeparated (consolidateLoop ds d d (groups @ [mkGroup groupStart groupEnd]))"
      using Cons.prems sep by (intro Cons.IH) (auto simp: mkGroup_def)
    then show ?thesis using False by simp
  qed
qed

lemma consolidate_separated:
  "sorted_wrt (<) dividers \<Longrightarrow> groupsSeparated (consolidateDividersToGroups dividers)"
proof (cases dividers)
  case Nil
  then show ?thesis by (simp add: consolidateDividersToGroups_def groupsSeparated_def)
next
  case (Cons d ds)
  assume s: "sorted_wrt (<) dividers"
  have "groupsSeparated (consolidateLoop ds d d [])"
    using s Cons by (intro consolidateLoop_separated) (auto simp: groupsSeparated_def)
  then show ?thesis using Cons by (simp add: consolidateDividersToGroups_def)
qed

lemma dividers_increasing: "sorted_wrt (<) (map int (filter P [0..<n]))"
  by (simp add: sorted_wrt_map sorted_wrt_filter)

lemma refine_centers_sorted:
  "groupsSeparated gs \<Longrightarrow> sorted_wrt (<) (map g_center (refineDividerCenters gs))"
proof (induction gs)
  case Nil
  then show ?case by (simp add: refineDividerCenters_def)
next
  case (Cons g gs)
  have g: "g_start g \<le> g_end g" using Cons.prems by (simp add: groupsSeparated_def)
  have tl: "groupsSeparated gs" using Cons.prems by (simp add: groupsSeparated_def)
  have "\<forall>b \<in> set gs. roundHalf (g_start g + g_end g) < roundHalf (g_start b + g_end b)"
  proof
    fix b assume b: "b \<in> set gs"
    then have "g_end g < g_start b" "g_start b \<le> g_end b"
      using Cons.prems by (auto simp: groupsSeparated_def)
    then show "roundHalf (g_start g + g_end g) < roundHalf (g_start b + g_end b)"
      using roundHalf_between [OF g] roundHalf_between [of "g_start b" "g_end b"] by linarith
  qed
  then show ?case using Cons.IH [OF tl] by (simp add: refineDividerCenters_def)
qed

lemma update_last: "xs \<noteq> [] \<Longrightarrow> xs[length xs - Suc 0 := v] = butlast xs @ [v]"
  by (induction xs rule: rev_induct) (auto simp: list_update_append)

lemma enforceLoop_sorted:
  "sorted_wrt (<) (map g_center (filtered @ rest)) \<Longrightarrow>
   lastKept = (if filtered = [] then None else Some (last filtered)) \<Longrightarrow>
   sorted_wrt (<) (map g_center (enforceLoop rest minGap filtered lastKept))"
proof (induction rest minGap filtered lastKept rule: enforceLoop.induct)
  case (1 minGap filtered lastKept)
  then show ?case by simp
next
  case (2 current rest minGap filtered)
  then show ?case by simp
next
  case (3 current rest minGap filtered kept)
  then have ne: "filtered \<noteq> []" and k: "kept = last filtered" by (auto split: if_splits)
  have split: "filtered = butlast filtered @ [kept]" using ne k by simp
  have s1: "sorted_wrt (<) (map g_center (butlast filtered @ [current] @ rest))"
    using "3.prems"(1) by (subst (asm) split) (auto simp: sorted_wrt_append)
  have s2: "sorted_wrt (<) (map g_center (filtered @ rest))"
    using "3.prems"(1) by (auto simp: sorted_wrt_append)
  show ?case
  proof (cases "minGap \<le> g_center current - g_center kept")
    case True
    then show ?thesis using "3.IH"(1) "3.prems"(1) by simp
  next
    case far: False
    show ?thesis
    proof (cases "g_width kept < g_width current")
      case True
      have "sorted_wrt (<) (map g_center (enforceLoop rest minGap
              (filtered[length filtered - 1 := current]) (Some current)))"
        using far True s1 ne by (intro "3.IH"(2)) (auto simp: update_last)
      then show ?thesis using far True by simp
    next
      case False
      have "sorted_wrt (<) (map g_center (enforceLoop rest minGap filtered (Some kept)))"
        using far False s2 ne k by (intro "3.IH"(3)) auto
      then show ?thesis using far False by simp
    qed
  qed
qed

lemma enforce_sorted:
  "sorted_wrt (<) (map g_center gs) \<Longrightarrow>
   sorted_wrt (<) (map g_center (enforceMinimumGap gs minGap))"
  unfolding enforceMinimumGap_def by (auto intro: enforceLoop_sorted)

lemma slices_of_scan_sorted:
  "sorted_wrt (<) (map g_center (enforceMinimumGap (refineDividerCenters
      (consolidateDividersToGroups (map int (filter P [0..<n])))) minGap))"
  by (intro enforce_sorted refine_centers_sorted consolidate_separated dividers_increasing)

lemma computeCells_positive:
  assumes "sorted_wrt (<) hs" and "sorted_wrt (<) vs" and "hs \<noteq> [] \<or> vs \<noteq> []"
    and "c \<in> set (computeCells hs vs w h)"
  shows "0 < cell_width c \<and> 0 < cell_height c"
proof -
  from assms(3,4) obtain row col where rc: "row < length hs - 1" "col < length vs - 1"
    and c: "cell_width c = vs ! (col + 1) - vs ! col" "cell_height c = hs ! (row + 1) - hs ! row"
    by (auto simp: computeCells_def)
  have "vs ! col < vs ! (col + 1)"
    using rc(2) by (intro sorted_wrt_nth_less [OF assms(2)]) auto
  moreover have "hs ! row < hs ! (row + 1)"
    using rc(1) by (intro sorted_wrt_nth_less [OF assms(1)]) auto
  ultimately show ?thesis using c by simp
qed

text \<open>
  The state the two runs of the minimum-gap loop are compared in: the run with the
  smaller gap has kept more groups, or as many with a last kept group that lies no
  further right and is no thinner.
\<close>

lemma enforceLoop_mono:
  "g1 \<le> g2 \<Longrightarrow> sorted (map g_center rest) \<Longrightarrow>
   \<forall>x \<in> set rest. g_center L1 \<le> g_center x \<Longrightarrow>
   length f2 < length f1 \<or>
     (length f2 = length f1 \<and> g_center L1 \<le> g_center L2 \<and> g_width L2 \<le> g_width L1) \<Longrightarrow>
   length (enforceLoop rest g2 f2 (Some L2)) \<le> length (enforceLoop rest g1 f1 (Some L1))"
proof (induction rest arbitrary: f1 f2 L1 L2)
  case Nil
  then show ?case by auto
next
  case (Cons X rest)
  have later: "\<forall>x \<in> set rest. g_center X \<le> g_center x" and srt: "sorted (map g_center rest)"
    and L1X: "g_center L1 \<le> g_center X"
    using Cons.prems by auto
  have L1later: "\<forall>x \<in> set rest. g_center L1 \<le> g_center x"
    using Cons.prems by auto
  note IH = Cons.IH [OF Cons.prems(1) srt]
  show ?case
    using Cons.prems(1,4) L1X
    by (auto intro!: IH later L1later)
qed

text \<open>
  C3 (as amended).  \<open>detectGrid\<close> reports one column when there is no vertical slice and
  otherwise one column less than there are vertical slices, and the same for rows.  This
  is \<open>max (n - 1) 1\<close> for every number of slices except one; with exactly one
  slice the reported count is 0.
\<close>

theorem detectGrid_columns_rows:
  fixes img tolerance minXGap minYGap
  defines "cfg \<equiv> detectGrid img tolerance minXGap minYGap"
  defines "nv \<equiv> length (verticalSlices cfg)" and "nh \<equiv> length (horizontalSlices cfg)"
  shows "columns cfg = (if nv > 0 then int nv - 1 else 1) \<and>
         rows cfg = (if nh > 0 then int nh - 1 else 1) \<and>
         (nv \<noteq> 1 \<longrightarrow> columns cfg = max (int nv - 1) 1) \<and>
         (nh \<noteq> 1 \<longrightarrow> rows cfg = max (int nh - 1) 1) \<and>
         (nv = 1 \<longrightarrow> columns cfg = 0) \<and> (nh = 1 \<longrightarrow> rows cfg = 0)"
proof -
  have c: "columns cfg = (if nv > 0 then int nv - 1 else 1)"
    unfolding cfg_def nv_def detectGrid_def Let_def by simp
  have r: "rows cfg = (if nh > 0 then int nh - 1 else 1)"
    unfolding cfg_def nh_def detectGrid_def Let_def by simp
  show ?thesis unfolding c r by auto
qed

theorem detectGrid_columns_rows_witness:
  "length (verticalSlices (detectGrid framedDot 5 2 2)) = 2 \<and>
   length (horizontalSlices (detectGrid framedDot 5 2 2)) = 2 \<and>
   columns (detectGrid framedDot 5 2 2) = max (int 2 - 1) 1 \<and>
   rows (detectGrid framedDot 5 2 2) = max (int 2 - 1) 1"
proof -
  have v: "length (verticalSlices (detectGrid framedDot 5 2 2)) = 2" by code_simp
  have h: "length (horizontalSlices (detectGrid framedDot 5 2 2)) = 2" by code_simp
  show ?thesis
    using detectGrid_columns_rows [of framedDot 5 2 2] unfolding v h by simp
qed

text \<open>
  C3 as stated fails: the one-pixel image has exactly one vertical slice, and the
  reported number of columns is 0, not \<open>max (1 - 1) 1 = 1\<close>.
\<close>

theorem detectGrid_single_slice_counterexample:
  "length (verticalSlices (detectGrid onePixel 5 50 50)) = 1 \<and>
   columns (detectGrid onePixel 5 50 50) = 0 \<and>
   columns (detectGrid onePixel 5 50 50)
     \<noteq> max (int (length (verticalSlices (detectGrid onePixel 5 50 50))) - 1) 1"
proof -
  have v: "length (verticalSlices (detectGrid onePixel 5 50 50)) = 1" by code_simp
  have c: "columns (detectGrid onePixel 5 50 50) = 0" by code_simp
  show ?thesis unfolding v c by simp
qed

text \<open>
  C5.  On a list of groups whose centres are in order, a larger minimum gap never keeps
  more groups than a smaller one.
\<close>

theorem enforceMinimumGap_monotone:
  assumes "g1 \<le> g2" and "sorted (map g_center gs)"
  shows "length (enforceMinimumGap gs g2) \<le> length (enforceMinimumGap gs g1)"
  using assms by (cases gs) (auto simp: enforceMinimumGap_def intro!: enforceLoop_mono)

theorem enforceMinimumGap_monotone_witness:
  "(1::int) \<le> 3 \<and> sorted (map g_center threeBands) \<and>
   length (enforceMinimumGap threeBands 3) = 2 \<and> length (enforceMinimumGap threeBands 1) = 3 \<and>
   length (enforceMinimumGap threeBands 3) \<le> length (enforceMinimumGap threeBands 1)"
proof -
  have le: "(1::int) \<le> 3" by simp
  have s: "sorted (map g_center threeBands)" by code_simp
  have a: "length (enforceMinimumGap threeBands 3) = 2" by code_simp
  have b: "length (enforceMinimumGap threeBands 1) = 3" by code_simp
  show ?thesis using enforceMinimumGap_monotone [OF le s] le s a b by simp
qed

text \<open>
  C10.  The slice lists reported by \<open>detectGrid\<close> are strictly increasing, and every
  cell laid out between consecutive slices has positive width and height.  (The single
  whole-image cell of an image without any divider is not between slices.)
\<close>

theorem detectGrid_slices_increasing:
  fixes img tolerance minXGap minYGap
  defines "cfg \<equiv> detectGrid img tolerance minXGap minYGap"
  shows "sorted_wrt (<) (horizontalSlices cfg) \<and> sorted_wrt (<) (verticalSlices cfg) \<and>
         (horizontalSlices cfg \<noteq> [] \<or> verticalSlices cfg \<noteq> [] \<longrightarrow>
            (\<forall>c \<in> set (cells cfg). 0 < cell_width c \<and> 0 < cell_height c))"
proof -
  have h: "sorted_wrt (<) (horizontalSlices cfg)"
    unfolding cfg_def detectGrid_def Let_def findHorizontalDividers_def
    by (simp add: slices_of_scan_sorted)
  have v: "sorted_wrt (<) (verticalSlices cfg)"
    unfolding cfg_def detectGrid_def Let_def findVerticalDividers_def
    by (simp add: slices_of_scan_sorted)
  have c: "cells cfg = computeCells (horizontalSlices cfg) (verticalSlices cfg)
             (width img) (height img)"
    unfolding cfg_def detectGrid_def Let_def by simp
  show ?thesis
    using h v computeCells_positive [OF h v] unfolding c by blast
qed

theorem detectGrid_slices_increasing_witness:
  "horizontalSlices (detectGrid framedDot 5 2 2) = [0, 2] \<and>
   verticalSlices (detectGrid framedDot 5 2 2) = [0, 2] \<and>
   sorted_wrt (<) (horizontalSlices (detectGrid framedDot 5 2 2)) \<and>
   cells (detectGrid framedDot 5 2 2) \<noteq> [] \<and>
   0 < cell_width (hd (cells (detectGrid framedDot 5 2 2))) \<and>
   0 < cell_height (hd (cells (detectGrid framedDot 5 2 2)))"
proof -
  have h: "horizontalSlices (detectGrid framedDot 5 2 2) = [0, 2]" by code_simp
  have v: "verticalSlices (detectGrid framedDot 5 2 2) = [0, 2]" by code_simp
  have c: "cells (detectGrid framedDot 5 2 2) \<noteq> []" by code_simp
  then have m: "hd (cells (detectGrid framedDot 5 2 2)) \<in> set (cells (detectGrid framedDot 5 2 2))"
    by simp
  have "0 < cell_width (hd (cells (detectGrid framedDot 5 2 2))) \<and>
        0 < cell_height (hd (cells (detectGrid framedDot 5 2 2)))"
    using detectGrid_slices_increasing [of framedDot 5 2 2] h m by simp
  then show ?thesis using h v c by simp
qed


section \<open>Properties of the shape decomposer\<close>

lemma fold_unchanged: "(\<And>x. x \<in> set xs \<Longrightarrow> f x s = s) \<Longrightarrow> fold f xs s = s"
  by (induction xs) auto

lemma upto_Suc_len: "[i .. i + int (Suc n) - 1] = [i .. i + int n - 1] @ [i + int n]"
  using upto_rec2 [of i "i + int n"] by simp

lemma boundsStep_opaque:
  "js_gt (alphaAt d w (int y) (int x)) 0 \<Longrightarrow>
   boundsStep d w y x (a, b, c, e) = (min a (int x), min b (int y), max c (int x), max e (int y))"
  by (simp add: boundsStep_def)

lemma boundsRow_opaque:
  assumes "\<And>x. x < n \<Longrightarrow> js_gt (alphaAt d w (int y) (int x)) 0"
  shows "fold (boundsStep d w y) [0..<n] (minX, minY, maxX, maxY) =
         (if n = 0 then (minX, minY, maxX, maxY)
          else (min minX 0, min minY (int y), max maxX (int n - 1), max maxY (int y)))"
  using assms
proof (induction n)
  case 0
  then show ?case by simp
next
  case (Suc n)
  have ih: "fold (boundsStep d w y) [0..<n] (minX, minY, maxX, maxY) =
         (if n = 0 then (minX, minY, maxX, maxY)
          else (min minX 0, min minY (int y), max maxX (int n - 1), max maxY (int y)))"
    using Suc.prems by (intro Suc.IH) auto
  have a: "js_gt (alphaAt d w (int y) (int n)) 0" using Suc.prems by auto
  show ?case
  proof (cases "n = 0")
    case True
    then show ?thesis using a by (simp add: boundsStep_opaque)
  next
    case False
    then show ?thesis using ih by (simp add: boundsStep_opaque [OF a] min_def max_def)
  qed
qed

lemma boundsScan_opaque:
  assumes "\<And>x y. x < w \<Longrightarrow> y < m \<Longrightarrow> js_gt (alphaAt d w (int y) (int x)) 0"
    and "0 < w"
  shows "fold (\<lambda>y acc. fold (boundsStep d w y) [0..<w] acc) [0..<m] (minX, minY, maxX, maxY) =
         (if m = 0 then (minX, minY, maxX, maxY)
          else (min minX 0, min minY 0, max maxX (int w - 1), max maxY (int m - 1)))"
  using assms(1)
proof (induction m)
  case 0
  then show ?case by simp
next
  case (Suc m)
  have ih: "fold (\<lambda>y acc. fold (boundsStep d w y) [0..<w] acc) [0..<m] (minX, minY, maxX, maxY) =
         (if m = 0 then (minX, minY, maxX, maxY)
          else (min minX 0, min minY 0, max maxX (int w - 1), max maxY (int m - 1)))"
    using Suc.prems by (intro Suc.IH) auto
  have row: "\<And>a b c e. fold (boundsStep d w m) [0..<w] (a, b, c, e) =
      (min a 0, min b (int m), max c (int w - 1), max e (int m))"
    using boundsRow_opaque [of w d w m] Suc.prems assms(2) by auto
  show ?case
  proof (cases "m = 0")
    case True
    then show ?thesis using row by simp
  next
    case False
    then show ?thesis using ih by (simp add: row min_def max_def)
  qed
qed

lemma countRow_opaque:
  assumes "\<And>x. bx \<le> x \<Longrightarrow> x < bx + int n \<Longrightarrow> js_gt (alphaAt d w y x) 200"
  shows "fold (\<lambda>x k. if js_gt (alphaAt d w y x) 200 then k + 1 else k)
           [bx .. bx + int n - 1] (k0 :: int) = k0 + int n"
  using assms
proof (induction n)
  case 0
  then show ?case by simp
next
  case (Suc n)
  have "fold (\<lambda>x k. if js_gt (alphaAt d w y x) 200 then k + 1 else k)
           [bx .. bx + int n - 1] k0 = k0 + int n"
    using Suc.prems by (intro Suc.IH) auto
  moreover have "js_gt (alphaAt d w y (bx + int n)) 200"
    using Suc.prems [of "bx + int n"] by simp
  ultimately show ?case unfolding upto_Suc_len by simp
qed

lemma countRows_opaque:
  assumes "\<And>x y. bx \<le> x \<Longrightarrow> x < bx + int n \<Longrightarrow> by \<le> y \<Longrightarrow> y < by + int m \<Longrightarrow>
             js_gt (alphaAt d w y x) 200"
  shows "fold (\<lambda>y k. fold (\<lambda>x k. if js_gt (alphaAt d w y x) 200 then k + 1 else k)
           [bx .. bx + int n - 1] k) [by .. by + int m - 1] (k0 :: int) = k0 + int n * int m"
  using assms
proof (induction m)
  case 0
  then show ?case by simp
next
  case (Suc m)
  have "fold (\<lambda>y k. fold (\<lambda>x k. if js_gt (alphaAt d w y x) 200 then k + 1 else k)
           [bx .. bx + int n - 1] k) [by .. by + int m - 1] k0 = k0 + int n * int m"
    using Suc.prems by (intro Suc.IH) auto
  moreover have "\<And>k. fold (\<lambda>x k. if js_gt (alphaAt d w (by + int m) x) 200 then k + 1 else k)
           [bx .. bx + int n - 1] k = k + int n"
    using Suc.prems by (intro countRow_opaque) auto
  ultimately show ?case unfolding upto_Suc_len by (simp add: algebra_simps)
qed

lemma js_gt_not_eq: "js_gt a 0 \<Longrightarrow> \<not> js_eq a 0"
  by (cases a) (auto simp: js_gt_def js_eq_def)

lemma upto_ends:
  "[i .. i + int (Suc n)] = i # [i + 1 .. i + int n] @ [i + int (Suc n)]"
proof -
  have "[i .. i + int (Suc n)] = i # [i + 1 .. i + int (Suc n)]"
    by (simp add: upto_rec1)
  also have "[i + 1 .. i + int (Suc n)] = [i + 1 .. i + int n] @ [i + int (Suc n)]"
    using upto_rec2 [of "i + 1" "i + int (Suc n)"] by simp
  finally show ?thesis by simp
qed

lemma hRow_opaque:
  assumes "b_x b = bx" and "b_width b = int (Suc n)"
    and op: "\<And>x. bx \<le> x \<Longrightarrow> x < bx + int (Suc n) \<Longrightarrow> js_gt (alphaAt d w y x) 0"
  shows "fold (hLineStep d w b y) [bx .. bx + int (Suc n)] (None, None, lines) =
         (None, None, lines @ [HorizontalLine bx y (int (Suc n)) 1 (colorAt d w y bx)])"
proof -
  have first: "hLineStep d w b y bx (None, None, lines) = (Some bx, Some (colorAt d w y bx), lines)"
    using op [of bx] assms(1,2) by (simp add: hLineStep_def Let_def)
  have mid: "fold (hLineStep d w b y) [bx + 1 .. bx + int n] (Some bx, Some (colorAt d w y bx), lines)
               = (Some bx, Some (colorAt d w y bx), lines)"
  proof (rule fold_unchanged)
    fix x assume "x \<in> set [bx + 1 .. bx + int n]"
    then have x: "bx \<le> x" "x < bx + int (Suc n)" by auto
    from op [OF x] x assms(1,2)
    show "hLineStep d w b y x (Some bx, Some (colorAt d w y bx), lines) =
            (Some bx, Some (colorAt d w y bx), lines)"
      by (simp add: hLineStep_def Let_def js_gt_not_eq)
  qed
  have last: "hLineStep d w b y (bx + int (Suc n)) (Some bx, Some (colorAt d w y bx), lines) =
      (None, None, lines @ [HorizontalLine bx y (int (Suc n)) 1 (colorAt d w y bx)])"
    using assms(1,2) by (simp add: hLineStep_def Let_def js_gt_def js_eq_def longerThan80_def)
  show ?thesis
    unfolding upto_ends by (simp only: fold_append fold_simps comp_apply first mid last)
qed

lemma hLines_opaque:
  assumes "b_x b = bx" and "b_width b = int (Suc n)"
    and op: "\<And>x y. bx \<le> x \<Longrightarrow> x < bx + int (Suc n) \<Longrightarrow> by \<le> y \<Longrightarrow> y < by + int m \<Longrightarrow>
               js_gt (alphaAt d w y x) 0"
  shows "fold (\<lambda>y lines. snd (snd (fold (hLineStep d w b y) [bx .. bx + int (Suc n)]
                                       (None, None, lines))))
           [by .. by + int m - 1] lines0 =
         lines0 @ map (\<lambda>y. HorizontalLine bx y (int (Suc n)) 1 (colorAt d w y bx))
                    [by .. by + int m - 1]"
  using op
proof (induction m)
  case 0
  then show ?case by simp
next
  case (Suc m)
  have ih: "fold (\<lambda>y lines. snd (snd (fold (hLineStep d w b y) [bx .. bx + int (Suc n)]
                                       (None, None, lines))))
           [by .. by + int m - 1] lines0 =
         lines0 @ map (\<lambda>y. HorizontalLine bx y (int (Suc n)) 1 (colorAt d w y bx))
                    [by .. by + int m - 1]"
    using Suc.prems by (intro Suc.IH) auto
  have row: "\<And>lines. fold (hLineStep d w b (by + int m)) [bx .. bx + int (Suc n)] (None, None, lines) =
         (None, None, lines @ [HorizontalLine bx (by + int m) (int (Suc n)) 1
                                 (colorAt d w (by + int m) bx)])"
    using Suc.prems by (intro hRow_opaque assms(1,2)) auto
  show ?case unfolding upto_Suc_len by (simp only: fold_append fold_simps comp_apply ih row snd_conv map_append list.map append_assoc)
qed

lemma vCol_opaque:
  assumes "b_y b = by" and "b_height b = int (Suc m)"
    and op: "\<And>y. by \<le> y \<Longrightarrow> y < by + int (Suc m) \<Longrightarrow> js_gt (alphaAt d w y x) 0"
  shows "fold (vLineStep d w b x) [by .. by + int (Suc m)] (None, None, lines) =
         (None, None, lines @ [VerticalLine x by (int (Suc m)) 1 (colorAt d w by x)])"
proof -
  have first: "vLineStep d w b x by (None, None, lines) = (Some by, Some (colorAt d w by x), lines)"
    using op [of "by"] assms(1,2) by (simp add: vLineStep_def Let_def)
  have mid: "fold (vLineStep d w b x) [by + 1 .. by + int m] (Some by, Some (colorAt d w by x), lines)
               = (Some by, Some (colorAt d w by x), lines)"
  proof (rule fold_unchanged)
    fix y assume "y \<in> set [by + 1 .. by + int m]"
    then have y: "by \<le> y" "y < by + int (Suc m)" by auto
    from op [OF y] y assms(1,2)
    show "vLineStep d w b x y (Some by, Some (colorAt d w by x), lines) =
            (Some by, Some (colorAt d w by x), lines)"
      by (simp add: vLineStep_def Let_def js_gt_not_eq)
  qed
  have last: "vLineStep d w b x (by + int (Suc m)) (Some by, Some (colorAt d w by x), lines) =
      (None, None, lines @ [VerticalLine x by (int (Suc m)) 1 (colorAt d w by x)])"
    using assms(1,2) by (simp add: vLineStep_def Let_def js_gt_def js_eq_def longerThan80_def)
  show ?thesis
    unfolding upto_ends by (simp only: fold_append fold_simps comp_apply first mid last)
qed

lemma vLines_opaque:
  assumes "b_y b = by" and "b_height b = int (Suc m)"
    and op: "\<And>x y. bx \<le> x \<Longrightarrow> x < bx + int n \<Longrightarrow> by \<le> y \<Longrightarrow> y < by + int (Suc m) \<Longrightarrow>
               js_gt (alphaAt d w y x) 0"
  shows "fold (\<lambda>x lines. snd (snd (fold (vLineStep d w b x) [by .. by + int (Suc m)]
                                       (None, None, lines))))
           [bx .. bx + int n - 1] lines0 =
         lines0 @ map (\<lambda>x. VerticalLine x by (int (Suc m)) 1 (colorAt d w by x))
                    [bx .. bx + int n - 1]"
  using op
proof (induction n)
  case 0
  then show ?case by simp
next
  case (Suc n)
  have ih: "fold (\<lambda>x lines. snd (snd (fold (vLineStep d w b x) [by .. by + int (Suc m)]
                                       (None, None, lines))))
           [bx .. bx + int n - 1] lines0 =
         lines0 @ map (\<lambda>x. VerticalLine x by (int (Suc m)) 1 (colorAt d w by x))
                    [bx .. bx + int n - 1]"
    using Suc.prems by (intro Suc.IH) auto
  have col: "\<And>lines. fold (vLineStep d w b (bx + int n)) [by .. by + int (Suc m)] (None, None, lines) =
         (None, None, lines @ [VerticalLine (bx + int n) by (int (Suc m)) 1
                                 (colorAt d w by (bx + int n))])"
    using Suc.prems by (intro vCol_opaque assms(1,2)) auto
  show ?case unfolding upto_Suc_len by (simp only: fold_append fold_simps comp_apply ih col snd_conv map_append list.map append_assoc)
qed

lemma find_from_zero:
  "P 0 \<Longrightarrow> (case find P [0 .. k] of Some i \<Rightarrow> i | None \<Rightarrow> (0::int)) = 0"
  by (cases "0 \<le> k") (simp_all add: upto_rec1)

lemma analyze_plain:
  assumes tl: "\<And>s. measureCornerRadius img (bx, by) s TopLeft = 0"
    and tr: "\<And>s. measureCornerRadius img (bx + bw - s, by) s TopRight = 0"
    and bl: "\<And>s. measureCornerRadius img (bx, by + bh - s) s BottomLeft = 0"
    and br: "\<And>s. measureCornerRadius img (bx + bw - s, by + bh - s) s BottomRight = 0"
  shows "detectRoundedRectangles img \<lparr>b_x = bx, b_y = by, b_width = bw, b_height = bh\<rparr> = []"
proof -
  have "hasRounding (analyzeCorners img \<lparr>b_x = bx, b_y = by, b_width = bw, b_height = bh\<rparr>) = False"
    unfolding analyzeCorners_def Let_def
    apply (simp only: bounds.simps tl tr bl br)
    apply simp
    done
  then show ?thesis
    unfolding detectRoundedRectangles_def Let_def by (simp only: if_False)
qed

lemma moreThan95_full: "0 < n \<Longrightarrow> moreThan95 n n"
  by (simp add: moreThan95_def)

lemma checkIfRectangle_opaque:
  assumes "\<And>x y. bx \<le> x \<Longrightarrow> x < bx + int n \<Longrightarrow> by \<le> y \<Longrightarrow> y < by + int m \<Longrightarrow>
             js_gt (alphaAt (data img) (width img) y x) 200"
    and "0 < n" and "0 < m"
  shows "checkIfRectangle img \<lparr>b_x = bx, b_y = by, b_width = int n, b_height = int m\<rparr>"
proof -
  have "fold (\<lambda>y k. fold (\<lambda>x k. if js_gt (alphaAt (data img) (width img) y x) 200 then k + 1 else k)
           [bx .. bx + int n - 1] k) [by .. by + int m - 1] (0 :: int)
          = 0 + int n * int m"
    by (rule countRows_opaque) (rule assms(1))
  moreover have "0 < int n * int m" using assms(2,3) by simp
  ultimately show ?thesis
    unfolding checkIfRectangle_def Let_def
    by (simp only: bounds.simps) (simp add: moreThan95_full)
qed


lemma findContentBounds_opaque:
  assumes "\<And>x y. x < Suc n \<Longrightarrow> y < Suc m \<Longrightarrow>
             js_gt (alphaAt (data img) (width img) (int y) (int x)) 0"
    and w: "width img = Suc n" and h: "height img = Suc m"
  shows "findContentBounds img =
           Some \<lparr>b_x = 0, b_y = 0, b_width = int (Suc n), b_height = int (Suc m)\<rparr>"
proof -
  have "fold (\<lambda>y acc. fold (boundsStep (data img) (Suc n) y) [0..<Suc n] acc) [0..<Suc m]
          (int (Suc n), int (Suc m), 0, 0) =
        (if Suc m = 0 then (int (Suc n), int (Suc m), 0, 0)
         else (min (int (Suc n)) 0, min (int (Suc m)) 0, max 0 (int (Suc n) - 1),
               max 0 (int (Suc m) - 1)))"
    using assms(1) unfolding w by (intro boundsScan_opaque) auto
  also have "\<dots> = (0, 0, int n, int m)" by simp
  finally have scan: "boundsScan img = (0, 0, int n, int m)"
    unfolding boundsScan_def w h .
  show ?thesis by (simp add: findContentBounds_def scan)
qed

lemma detectHorizontalLines_opaque:
  assumes "\<And>x y. bx \<le> x \<Longrightarrow> x < bx + int (Suc n) \<Longrightarrow> by \<le> y \<Longrightarrow> y < by + int m \<Longrightarrow>
             js_gt (alphaAt (data img) (width img) y x) 0"
  shows "detectHorizontalLines img \<lparr>b_x = bx, b_y = by, b_width = int (Suc n), b_height = int m\<rparr> =
           map (\<lambda>y. HorizontalLine bx y (int (Suc n)) 1 (colorAt (data img) (width img) y bx))
             [by .. by + int m - 1]"
proof -
  have "fold (\<lambda>y lines. snd (snd (fold (hLineStep (data img) (width img)
                  \<lparr>b_x = bx, b_y = by, b_width = int (Suc n), b_height = int m\<rparr> y)
                  [bx .. bx + int (Suc n)] (None, None, lines))))
           [by .. by + int m - 1] [] =
         [] @ map (\<lambda>y. HorizontalLine bx y (int (Suc n)) 1 (colorAt (data img) (width img) y bx))
                    [by .. by + int m - 1]"
    by (rule hLines_opaque) (simp_all add: assms)
  then show ?thesis
    unfolding detectHorizontalLines_def consolidateLines_def
    by (simp only: bounds.simps append_Nil)
qed

lemma detectVerticalLines_opaque:
  assumes "\<And>x y. bx \<le> x \<Longrightarrow> x < bx + int n \<Longrightarrow> by \<le> y \<Longrightarrow> y < by + int (Suc m) \<Longrightarrow>
             js_gt (alphaAt (data img) (width img) y x) 0"
  shows "detectVerticalLines img \<lparr>b_x = bx, b_y = by, b_width = int n, b_height = int (Suc m)\<rparr> =
           map (\<lambda>x. VerticalLine x by (int (Suc m)) 1 (colorAt (data img) (width img) by x))
             [bx .. bx + int n - 1]"
proof -
  have "fold (\<lambda>x lines. snd (snd (fold (vLineStep (data img) (width img)
                  \<lparr>b_x = bx, b_y = by, b_width = int n, b_height = int (Suc m)\<rparr> x)
                  [by .. by + int (Suc m)] (None, None, lines))))
           [bx .. bx + int n - 1] [] =
         [] @ map (\<lambda>x. VerticalLine x by (int (Suc m)) 1 (colorAt (data img) (width img) by x))
                    [bx .. bx + int n - 1]"
    by (rule vLines_opaque) (simp_all add: assms)
  then show ?thesis
    unfolding detectVerticalLines_def consolidateLines_def
    by (simp only: bounds.simps append_Nil)
qed

lemma measureCornerRadius_zero:
  assumes "js_gt (alphaAt (data img) (width img)
                     (if snd (diagonals name) = 1 then snd c else snd c + s - 1)
                     (if fst (diagonals name) = 1 then fst c else fst c + s - 1)) 128"
  shows "measureCornerRadius img c s name = 0"
  using assms unfolding measureCornerRadius_def
  by (auto simp: Let_def split: prod.splits intro!: find_from_zero)

lemma js_gt_mono: "js_gt a k \<Longrightarrow> j \<le> k \<Longrightarrow> js_gt a j"
  by (cases a) (auto simp: js_gt_def)

lemma opaque_decompose:
  assumes op: "opaqueImage img" and w: "width img = Suc n" and h: "height img = Suc m"
  shows "decomposeIntoShapes img =
    \<lparr>shapes = Rectangle 0 0 (int (Suc n)) (int (Suc m))
                 (colorAt (data img) (width img) (int (Suc m) div 2) (int (Suc n) div 2)) 0
               # map (\<lambda>y. HorizontalLine 0 y (int (Suc n)) 1 (colorAt (data img) (width img) y 0))
                   [0 .. int m]
               @ map (\<lambda>x. VerticalLine x 0 (int (Suc m)) 1 (colorAt (data img) (width img) 0 x))
                   [0 .. int n],
     sa_bounds = Some \<lparr>b_x = 0, b_y = 0, b_width = int (Suc n), b_height = int (Suc m)\<rparr>,
     isEmpty = False\<rparr>"
proof -
  let ?B = "\<lparr>b_x = 0, b_y = 0, b_width = int (Suc n), b_height = int (Suc m)\<rparr>"
  have a200: "\<And>x y. 0 \<le> x \<Longrightarrow> x < int (Suc n) \<Longrightarrow> 0 \<le> y \<Longrightarrow> y < int (Suc m) \<Longrightarrow>
                js_gt (alphaAt (data img) (width img) y x) 200"
    using op unfolding opaqueImage_def w h by blast
  have a0: "\<And>x y. 0 \<le> x \<Longrightarrow> x < int (Suc n) \<Longrightarrow> 0 \<le> y \<Longrightarrow> y < int (Suc m) \<Longrightarrow>
                js_gt (alphaAt (data img) (width img) y x) 0"
    by (rule js_gt_mono [OF a200]) auto
  have a128: "\<And>x y. 0 \<le> x \<Longrightarrow> x < int (Suc n) \<Longrightarrow> 0 \<le> y \<Longrightarrow> y < int (Suc m) \<Longrightarrow>
                js_gt (alphaAt (data img) (width img) y x) 128"
    by (rule js_gt_mono [OF a200]) auto
  have fb: "findContentBounds img = Some ?B"
    by (rule findContentBounds_opaque [OF _ w h]) (rule a0, auto)
  have rr: "detectRoundedRectangles img ?B = []"
  proof (rule analyze_plain)
    fix s
    show "measureCornerRadius img (0, 0) s TopLeft = 0"
      by (rule measureCornerRadius_zero) (simp add: a128)
    show "measureCornerRadius img (0 + int (Suc n) - s, 0) s TopRight = 0"
      by (rule measureCornerRadius_zero) (simp add: a128)
    show "measureCornerRadius img (0, 0 + int (Suc m) - s) s BottomLeft = 0"
      by (rule measureCornerRadius_zero) (simp add: a128)
    show "measureCornerRadius img (0 + int (Suc n) - s, 0 + int (Suc m) - s) s BottomRight = 0"
      by (rule measureCornerRadius_zero) (simp add: a128)
  qed
  have cnt: "checkIfRectangle img ?B"
    by (rule checkIfRectangle_opaque) (auto intro: a200)
  have rect: "detectRectangles img ?B = [Rectangle 0 0 (int (Suc n)) (int (Suc m))
                 (colorAt (data img) (width img) (int (Suc m) div 2) (int (Suc n) div 2)) 0]"
    unfolding detectRectangles_def sampleDominantColor_def Let_def
    by (simp only: bounds.simps cnt if_True add_0)
  have hl: "detectHorizontalLines img ?B =
              map (\<lambda>y. HorizontalLine 0 y (int (Suc n)) 1 (colorAt (data img) (width img) y 0))
                [0 .. 0 + int (Suc m) - 1]"
    by (rule detectHorizontalLines_opaque) (auto intro: a0)
  have vl: "detectVerticalLines img ?B =
              map (\<lambda>x. VerticalLine x 0 (int (Suc m)) 1 (colorAt (data img) (width img) 0 x))
                [0 .. 0 + int (Suc n) - 1]"
    by (rule detectVerticalLines_opaque) (auto intro: a0)
  have e1: "0 + int (Suc m) - 1 = int m" and e2: "0 + int (Suc n) - 1 = int n" by simp_all
  show ?thesis
    unfolding decomposeIntoShapes_def fb option.case Let_def rr rect hl vl e1 e2
    by simp
qed

lemma nth_concat_replicate:
  "i < n * length ys \<Longrightarrow> concat (replicate n ys) ! i = ys ! (i mod length ys)"
proof (induction n arbitrary: i)
  case 0
  then show ?case by simp
next
  case (Suc n)
  show ?case
  proof (cases "i < length ys")
    case True
    then show ?thesis by (simp add: nth_append)
  next
    case False
    then have "i - length ys < n * length ys" using Suc.prems by simp
    from Suc.IH [OF this] False show ?thesis
      by (simp add: nth_append le_mod_geq)
  qed
qed

lemma nth_concat_replicate4:
  "i < 4 * n \<Longrightarrow> concat (replicate n [a, b, c, d]) ! i = [a, b, c, d] ! (i mod 4)"
  using nth_concat_replicate [of i n "[a, b, c, d]"] by (simp add: mult.commute)

lemma length_redPixels: "length (redPixels n) = 4 * n"
  by (induction n) (simp_all add: redPixels_def)

lemma rd_redPixels_alpha:
  assumes "0 \<le> k" and "k < int n"
  shows "rd (redPixels n) (k * 4 + 3) = Some 255" "rd (redPixels n) (k * 4) = Some 255"
    "rd (redPixels n) (k * 4 + 1) = Some 0" "rd (redPixels n) (k * 4 + 2) = Some 0"
proof -
  have l: "nat (k * 4 + j) < 4 * n" if "j < 4" "0 \<le> j" for j using assms that by linarith
  have m: "nat (k * 4 + j) mod 4 = nat j" if "j < 4" "0 \<le> j" for j
    using assms that by (simp add: nat_add_distrib nat_mult_distrib)
  show "rd (redPixels n) (k * 4 + 3) = Some 255"
    using l [of 3] m [of 3] assms nth_concat_replicate4 [OF l [of 3], of 255 0 0 255]
    by (simp add: rd_def length_redPixels) (simp add: redPixels_def)
  show "rd (redPixels n) (k * 4) = Some 255"
    using l [of 0] m [of 0] assms nth_concat_replicate4 [OF l [of 0], of 255 0 0 255]
    by (simp add: rd_def length_redPixels) (simp add: redPixels_def)
  show "rd (redPixels n) (k * 4 + 1) = Some 0"
    using l [of 1] m [of 1] assms nth_concat_replicate4 [OF l [of 1], of 255 0 0 255]
    by (simp add: rd_def length_redPixels) (simp add: redPixels_def)
  show "rd (redPixels n) (k * 4 + 2) = Some 0"
    using l [of 2] m [of 2] assms nth_concat_replicate4 [OF l [of 2], of 255 0 0 255]
    by (simp add: rd_def length_redPixels) (simp add: redPixels_def)
qed

lemma redStrip_pixels:
  assumes "0 \<le> x" "x < 50" "0 \<le> y" "y < 4"
  shows "alphaAt (data redStrip) (width redStrip) y x = Some 255"
    and "colorAt (data redStrip) (width redStrip) y x = red"
proof -
  have k: "0 \<le> y * 50 + x" "y * 50 + x < int 200" using assms by auto
  show "alphaAt (data redStrip) (width redStrip) y x = Some 255"
    using rd_redPixels_alpha(1) [OF k] by (simp add: alphaAt_def pixelIndex_def redStrip_def)
  show "colorAt (data redStrip) (width redStrip) y x = red"
    using rd_redPixels_alpha [OF k]
    by (simp add: colorAt_def pixelIndex_def pixelAt_def redStrip_def red_def add.assoc)
qed

lemma redStrip_decompose:
  "decomposeIntoShapes redStrip =
     \<lparr>shapes = Rectangle 0 0 50 4 red 0 # map (\<lambda>y. HorizontalLine 0 y 50 1 red) [0 .. 3]
                @ map (\<lambda>x. VerticalLine x 0 4 1 red) [0 .. 49],
      sa_bounds = Some \<lparr>b_x = 0, b_y = 0, b_width = 50, b_height = 4\<rparr>, isEmpty = False\<rparr>"
proof -
  have op: "opaqueImage redStrip"
    unfolding opaqueImage_def
  proof (intro allI impI)
    fix x y
    assume "0 \<le> x \<and> x < int (width redStrip) \<and> 0 \<le> y \<and> y < int (height redStrip)"
    then have "0 \<le> x" "x < 50" "0 \<le> y" "y < 4" by (simp_all add: redStrip_def)
    from redStrip_pixels(1) [OF this]
    show "js_gt (alphaAt (data redStrip) (width redStrip) y x) 200" by (simp add: js_gt_def)
  qed
  have w: "width redStrip = Suc 49" and h: "height redStrip = Suc 3"
    by (simp_all add: redStrip_def)
  have c1: "colorAt (data redStrip) (width redStrip) (int (Suc 3) div 2) (int (Suc 49) div 2) = red"
    by (rule redStrip_pixels(2)) simp_all
  have c2: "map (\<lambda>y. HorizontalLine 0 y (int (Suc 49)) 1 (colorAt (data redStrip) (width redStrip) y 0))
              [0 .. int 3] = map (\<lambda>y. HorizontalLine 0 y 50 1 red) [0 .. 3]"
    by (rule map_cong) (auto simp: redStrip_pixels(2))
  have c3: "map (\<lambda>x. VerticalLine x 0 (int (Suc 3)) 1 (colorAt (data redStrip) (width redStrip) 0 x))
              [0 .. int 49] = map (\<lambda>x. VerticalLine x 0 4 1 red) [0 .. 49]"
    by (rule map_cong) (auto simp: redStrip_pixels(2))
  show ?thesis
    unfolding opaque_decompose [OF op w h] c1 c2 c3 by simp
qed

lemma js_gt_zero: "\<not> js_gt (Some 0) 0"
  by (simp add: js_gt_def)

lemma boundsScan_transparent:
  assumes "\<And>x y. x < width img \<Longrightarrow> y < height img \<Longrightarrow>
             \<not> js_gt (alphaAt (data img) (width img) (int y) (int x)) 0"
  shows "boundsScan img = (int (width img), int (height img), 0, 0)"
  unfolding boundsScan_def
proof (rule fold_unchanged)
  fix y assume y: "y \<in> set [0..<height img]"
  show "fold (boundsStep (data img) (width img) y) [0..<width img]
          (int (width img), int (height img), 0, 0) = (int (width img), int (height img), 0, 0)"
  proof (rule fold_unchanged)
    fix x assume "x \<in> set [0..<width img]"
    with y assms [of x y]
    show "boundsStep (data img) (width img) y x (int (width img), int (height img), 0, 0)
            = (int (width img), int (height img), 0, 0)"
      by (simp add: boundsStep_def)
  qed
qed

lemma detectHorizontalLines_transparent:
  assumes "\<And>y x. \<not> js_gt (alphaAt (data img) (width img) y x) 0"
  shows "detectHorizontalLines img b = []"
  unfolding detectHorizontalLines_def consolidateLines_def
proof (rule fold_unchanged)
  fix y
  have "fold (hLineStep (data img) (width img) b y) [b_x b .. b_x b + b_width b] (None, None, [])
          = (None, None, [])"
    by (rule fold_unchanged) (simp add: hLineStep_def Let_def assms js_gt_zero)
  then show "snd (snd (fold (hLineStep (data img) (width img) b y) [b_x b .. b_x b + b_width b]
                         (None, None, []))) = []"
    by simp
qed

lemma detectVerticalLines_transparent:
  assumes "\<And>y x. \<not> js_gt (alphaAt (data img) (width img) y x) 0"
  shows "detectVerticalLines img b = []"
  unfolding detectVerticalLines_def consolidateLines_def
proof (rule fold_unchanged)
  fix x
  have "fold (vLineStep (data img) (width img) b x) [b_y b .. b_y b + b_height b] (None, None, [])
          = (None, None, [])"
    by (rule fold_unchanged) (simp add: vLineStep_def Let_def assms js_gt_zero)
  then show "snd (snd (fold (vLineStep (data img) (width img) b x) [b_y b .. b_y b + b_height b]
                         (None, None, []))) = []"
    by simp
qed

lemma detectRoundedRectangles_transparent:
  assumes "\<And>y x. \<not> js_gt (alphaAt (data img) (width img) y x) 128"
  shows "detectRoundedRectangles img b = []"
proof -
  have m: "measureCornerRadius img c s name = 0" for c s name
    unfolding measureCornerRadius_def
    by (auto simp: Let_def assms find_None_iff split: prod.splits option.splits dest: find_Some_iff [THEN iffD1])
  have "hasRounding (analyzeCorners img b) = False"
    unfolding analyzeCorners_def Let_def by (simp add: m)
  then show ?thesis
    unfolding detectRoundedRectangles_def Let_def by (simp only: if_False)
qed

lemma detectRectangles_transparent:
  assumes "\<And>y x. \<not> js_gt (alphaAt (data img) (width img) y x) 200"
  shows "detectRectangles img b = []"
proof -
  have "fold (\<lambda>y n. fold (\<lambda>x n. if js_gt (alphaAt (data img) (width img) y x) 200
                                  then n + 1 else n)
                [b_x b .. b_x b + b_width b - 1] n)
          [b_y b .. b_y b + b_height b - 1] (0 :: int) = 0"
    by (intro fold_unchanged) (simp add: assms)
  then have "\<not> checkIfRectangle img b"
    unfolding checkIfRectangle_def Let_def by (simp add: moreThan95_def)
  then show ?thesis by (simp add: detectRectangles_def)
qed

lemma decompose_no_content:
  assumes "\<And>y x. \<not> js_gt (alphaAt (data img) (width img) y x) 0"
  shows "shapes (decomposeIntoShapes img) = [] \<and> isEmpty (decomposeIntoShapes img)"
proof -
  have a128: "\<not> js_gt (alphaAt (data img) (width img) y x) 128" for y x
    using assms [of y x] js_gt_mono [of "alphaAt (data img) (width img) y x" 128 0] by auto
  have a200: "\<not> js_gt (alphaAt (data img) (width img) y x) 200" for y x
    using assms [of y x] js_gt_mono [of "alphaAt (data img) (width img) y x" 200 0] by auto
  show ?thesis
    unfolding decomposeIntoShapes_def Let_def
    by (simp add: detectRoundedRectangles_transparent [OF a128]
          detectRectangles_transparent [OF a200] detectHorizontalLines_transparent [OF assms]
          detectVerticalLines_transparent [OF assms] split: option.split)
qed

lemma decompose_transparent:
  assumes wf: "wellFormed img"
    and tr: "\<And>x y. x < width img \<Longrightarrow> y < height img \<Longrightarrow>
             \<not> js_gt (alphaAt (data img) (width img) (int y) (int x)) 0"
  shows "shapes (decomposeIntoShapes img) = [] \<and> isEmpty (decomposeIntoShapes img)"
proof (cases "width img = 0")
  case True
  then have "data img = []" using wf by (simp add: wellFormed_def)
  then have "\<And>y x. \<not> js_gt (alphaAt (data img) (width img) y x) 0"
    by (simp add: alphaAt_def rd_def js_gt_def)
  then show ?thesis by (rule decompose_no_content)
next
  case False
  then have "findContentBounds img = None"
    by (simp add: findContentBounds_def boundsScan_transparent [OF tr])
  then show ?thesis by (simp add: decomposeIntoShapes_def)
qed

lemma hLineStep_types:
  "\<forall>s \<in> set (snd (snd st)). shapeTypeOf s = HorizontalLineType \<Longrightarrow>
   \<forall>s \<in> set (snd (snd (hLineStep d w b y x st))). shapeTypeOf s = HorizontalLineType"
  by (cases st) (auto simp: hLineStep_def Let_def)

lemma vLineStep_types:
  "\<forall>s \<in> set (snd (snd st)). shapeTypeOf s = VerticalLineType \<Longrightarrow>
   \<forall>s \<in> set (snd (snd (vLineStep d w b x y st))). shapeTypeOf s = VerticalLineType"
  by (cases st) (auto simp: vLineStep_def Let_def)

lemma detectHorizontalLines_types:
  "\<forall>s \<in> set (detectHorizontalLines img b). shapeTypeOf s = HorizontalLineType"
  unfolding detectHorizontalLines_def consolidateLines_def
proof (rule fold_invariant [where Q = "\<lambda>_. True"])
  fix y lines
  assume l: "\<forall>s \<in> set lines. shapeTypeOf s = HorizontalLineType"
  show "\<forall>s \<in> set (snd (snd (fold (hLineStep (data img) (width img) b y)
            [b_x b .. b_x b + b_width b] (None, None, lines)))). shapeTypeOf s = HorizontalLineType"
    by (rule fold_invariant [where Q = "\<lambda>_. True"]) (simp_all add: l hLineStep_types)
qed simp_all

lemma detectVerticalLines_types:
  "\<forall>s \<in> set (detectVerticalLines img b). shapeTypeOf s = VerticalLineType"
  unfolding detectVerticalLines_def consolidateLines_def
proof (rule fold_invariant [where Q = "\<lambda>_. True"])
  fix x lines
  assume l: "\<forall>s \<in> set lines. shapeTypeOf s = VerticalLineType"
  show "\<forall>s \<in> set (snd (snd (fold (vLineStep (data img) (width img) b x)
            [b_y b .. b_y b + b_height b] (None, None, lines)))). shapeTypeOf s = VerticalLineType"
    by (rule fold_invariant [where Q = "\<lambda>_. True"]) (simp_all add: l vLineStep_types)
qed simp_all

text \<open>
  C7.  The shape list never holds both a rounded-rectangle and a rectangle shape: the
  plain-rectangle test runs only when no rounded rectangle was found, and the line
  detectors emit line shapes only.
\<close>

theorem decomposeIntoShapes_exclusive:
  "\<not> (RoundedRectangleType \<in> shapeTypeOf ` set (shapes (decomposeIntoShapes img)) \<and>
      RectangleType \<in> shapeTypeOf ` set (shapes (decomposeIntoShapes img)))"
proof (cases "findContentBounds img")
  case None
  then show ?thesis by (simp add: decomposeIntoShapes_def)
next
  case (Some b)
  have h: "shapeTypeOf ` set (detectHorizontalLines img b) \<subseteq> {HorizontalLineType}"
    using detectHorizontalLines_types [of img b] by auto
  have v: "shapeTypeOf ` set (detectVerticalLines img b) \<subseteq> {VerticalLineType}"
    using detectVerticalLines_types [of img b] by auto
  have r: "shapeTypeOf ` set (detectRoundedRectangles img b) \<subseteq> {RoundedRectangleType}"
    by (auto simp: detectRoundedRectangles_def Let_def)
  have p: "shapeTypeOf ` set (detectRectangles img b) \<subseteq> {RectangleType}"
    by (auto simp: detectRectangles_def)
  show ?thesis
    using h v r p unfolding decomposeIntoShapes_def Some option.case Let_def
    by (cases "detectRoundedRectangles img b = []") (auto simp: image_Un)
qed

text \<open>
  C1 (as amended).  \<open>isEmpty\<close> is true exactly when no shape was detected.  For a
  well-formed buffer without any pixel of alpha above 0 it is true; the converse does
  not hold.
\<close>

theorem decomposeIntoShapes_isEmpty:
  assumes "wellFormed img"
  shows "(isEmpty (decomposeIntoShapes img) \<longleftrightarrow> shapes (decomposeIntoShapes img) = []) \<and>
         (noContent img \<longrightarrow> isEmpty (decomposeIntoShapes img))"
proof -
  have "isEmpty (decomposeIntoShapes img) \<longleftrightarrow> shapes (decomposeIntoShapes img) = []"
    by (simp add: decomposeIntoShapes_def Let_def split: option.split)
  moreover have "isEmpty (decomposeIntoShapes img)" if "noContent img"
    using decompose_transparent [OF assms] that unfolding noContent_def by blast
  ultimately show ?thesis by blast
qed

theorem decomposeIntoShapes_isEmpty_witness:
  "wellFormed clearPixel \<and> noContent clearPixel \<and> isEmpty (decomposeIntoShapes clearPixel) \<and>
   shapes (decomposeIntoShapes clearPixel) = []"
proof -
  have wf: "wellFormed clearPixel" by (simp add: wellFormed_def clearPixel_def)
  have nc: "noContent clearPixel"
    by (simp add: noContent_def clearPixel_def alphaAt_def pixelIndex_def rd_def js_gt_def)
  show ?thesis using decomposeIntoShapes_isEmpty [OF wf] wf nc by blast
qed

text \<open>
  C1 as stated fails from right to left: the 2x2 image with two opaque pixels on its
  diagonal yields no shape, so \<open>isEmpty\<close> is true although the buffer has content.
\<close>

theorem decomposeIntoShapes_isEmpty_counterexample:
  "wellFormed diagonalDots \<and> isEmpty (decomposeIntoShapes diagonalDots) \<and>
   \<not> noContent diagonalDots"
proof -
  have wf: "wellFormed diagonalDots" by (simp add: wellFormed_def diagonalDots_def)
  have e: "isEmpty (decomposeIntoShapes diagonalDots)" by code_simp
  have "js_gt (alphaAt (data diagonalDots) (width diagonalDots) (int 0) (int 0)) 0"
    by (simp add: diagonalDots_def alphaAt_def pixelIndex_def rd_def js_gt_def)
  moreover have "(0::nat) < width diagonalDots \<and> (0::nat) < height diagonalDots"
    by (simp add: diagonalDots_def)
  ultimately have "\<not> noContent diagonalDots" unfolding noContent_def by blast
  then show ?thesis using wf e by simp
qed

text \<open>
  C2 (as amended).  For the 50x4 fully opaque red strip \<open>decomposeIntoShapes\<close> returns
  one rectangle, one horizontal-line shape per row (four, each of length 50) and one
  vertical-line shape per column (fifty, each of length 4): 55 shapes in all.
\<close>

theorem redStrip_shapes:
  "filter (\<lambda>s. shapeTypeOf s = RectangleType) (shapes (decomposeIntoShapes redStrip))
     = [Rectangle 0 0 50 4 red 0] \<and>
   filter (\<lambda>s. shapeTypeOf s = HorizontalLineType) (shapes (decomposeIntoShapes redStrip))
     = map (\<lambda>y. HorizontalLine 0 y 50 1 red) [0 .. 3] \<and>
   filter (\<lambda>s. shapeTypeOf s = VerticalLineType) (shapes (decomposeIntoShapes redStrip))
     = map (\<lambda>x. VerticalLine x 0 4 1 red) [0 .. 49] \<and>
   filter (\<lambda>s. shapeTypeOf s = RoundedRectangleType) (shapes (decomposeIntoShapes redStrip)) = [] \<and>
   length (shapes (decomposeIntoShapes redStrip)) = 55 \<and>
   isEmpty (decomposeIntoShapes redStrip) = False"
  by (simp add: redStrip_decompose filter_map comp_def)

text \<open>
  C2 as stated fails: there are four horizontal-line shapes, not one, and fifty
  vertical-line shapes, not none.
\<close>

theorem redStrip_counterexample:
  "length (filter (\<lambda>s. shapeTypeOf s = HorizontalLineType)
             (shapes (decomposeIntoShapes redStrip))) = 4 \<and>
   length (filter (\<lambda>s. shapeTypeOf s = VerticalLineType)
             (shapes (decomposeIntoShapes redStrip))) = 50"
  by (simp add: redStrip_decompose filter_map comp_def)





section \<open>Properties of the background remover\<close>

lemma onlyClears_refl: "onlyClears d d"
  by (simp add: onlyClears_def)

lemma onlyClears_trans: "onlyClears a b \<Longrightarrow> onlyClears b c \<Longrightarrow> onlyClears a c"
  unfolding onlyClears_def by (metis (no_types, lifting))

lemma onlyClears_wr: "onlyClears d (wr d (k * 4 + 3) 0)"
proof (cases "0 \<le> k * 4 + 3 \<and> nat (k * 4 + 3) < length d")
  case True
  then have "0 \<le> k" by linarith
  then have "nat (k * 4 + 3) = nat k * 4 + 3" by (simp add: nat_add_distrib nat_mult_distrib)
  then have m: "nat (k * 4 + 3) mod 4 = 3" by simp
  show ?thesis
    using True m by (auto simp: onlyClears_def wr_def nth_list_update)
next
  case False
  then show ?thesis by (auto simp: wr_def onlyClears_refl)
qed

lemma onlyClears_wr_pixel: "onlyClears d (wr d (pixelIndex w y x + 3) 0)"
  unfolding pixelIndex_def by (rule onlyClears_wr)

lemma fold_onlyClears:
  "(\<And>u e. onlyClears e (f u e)) \<Longrightarrow> onlyClears d (fold f xs d)"
proof (induction xs arbitrary: d)
  case Nil
  then show ?case by (simp add: onlyClears_refl)
next
  case (Cons u us)
  have "onlyClears d (f u d)" by (rule Cons.prems)
  moreover have "onlyClears (f u d) (fold f us (f u d))" by (rule Cons.IH) (rule Cons.prems)
  ultimately show ?case by (simp add: onlyClears_trans)
qed

lemma onlyClears_rd:
  assumes "onlyClears d e"
  shows "rd d i = Some 0 \<Longrightarrow> rd e i = Some 0"
    and "rd d i = Some a \<Longrightarrow> rd e i = Some a \<or> rd e i = Some 0"
    and "rd d i = None \<longleftrightarrow> rd e i = None"
  using assms unfolding onlyClears_def rd_def by (auto split: if_splits)

lemma onlyClears_alpha_zero:
  "onlyClears d e \<Longrightarrow> alphaAt d w y x = Some 0 \<Longrightarrow> alphaAt e w y x = Some 0"
  unfolding alphaAt_def by (rule onlyClears_rd(1))

lemma onlyClears_alpha:
  "onlyClears d e \<Longrightarrow> alphaAt d w y x = Some a \<Longrightarrow>
   alphaAt e w y x = Some a \<or> alphaAt e w y x = Some 0"
  unfolding alphaAt_def by (rule onlyClears_rd(2))

lemma length_filter_mono:
  "(\<And>x. x \<in> set xs \<Longrightarrow> P x \<Longrightarrow> Q x) \<Longrightarrow> length (filter P xs) \<le> length (filter Q xs)"
  by (induction xs) auto

lemma js_eq_zero: "js_eq a 0 \<longleftrightarrow> a = Some 0"
  by (cases a) (auto simp: js_eq_def)

lemma transparentNeighbors_mono:
  assumes "onlyClears d e"
  shows "transparentNeighbors d x y w h \<le> transparentNeighbors e x y w h"
  unfolding transparentNeighbors_def
  by (rule length_filter_mono) (auto simp: Let_def js_eq_zero onlyClears_alpha_zero [OF assms])

lemma shadowStep_clears: "onlyClears d (shadowStep w h y x d)"
  by (simp add: shadowStep_def onlyClears_wr_pixel onlyClears_refl)

lemma rd_wr_same: "rd d i = Some a \<Longrightarrow> rd (wr d i v) i = Some v"
  by (auto simp: rd_def wr_def split: if_splits)

lemma shadowStep_establishes:
  assumes oc: "onlyClears d0 d" and a: "alphaAt d0 w y x = Some a" "0 < a" "a < 128"
    and n: "2 \<le> transparentNeighbors d0 x y w h"
  shows "alphaAt (shadowStep w h y x d) w y x = Some 0"
proof -
  from onlyClears_alpha [OF oc a(1)] show ?thesis
  proof
    assume cur: "alphaAt d w y x = Some a"
    have "2 \<le> transparentNeighbors d x y w h"
      using n transparentNeighbors_mono [OF oc, of x y w h] by linarith
    then have "shadowStep w h y x d = wr d (pixelIndex w y x + 3) 0"
      using cur a(2,3) by (simp add: shadowStep_def isShadowPixel_def js_gt_def js_lt_def)
    then show ?thesis
      using cur unfolding alphaAt_def by (simp add: rd_wr_same)
  next
    assume "alphaAt d w y x = Some 0"
    then show ?thesis by (simp add: shadowStep_def js_gt_def)
  qed
qed

lemma fold_establishes:
  assumes t: "t \<in> set xs"
    and clr: "\<And>u e. onlyClears e (f u e)"
    and est: "\<And>e. onlyClears d0 e \<Longrightarrow> alphaAt (f t e) w y x = Some 0"
    and oc: "onlyClears d0 d"
  shows "alphaAt (fold f xs d) w y x = Some 0"
  using t oc
proof (induction xs arbitrary: d)
  case Nil
  then show ?case by simp
next
  case (Cons u us)
  show ?case
  proof (cases "u = t")
    case True
    have "alphaAt (f t d) w y x = Some 0" by (rule est) (rule Cons.prems)
    moreover have "onlyClears (f t d) (fold f us (f t d))" by (rule fold_onlyClears) (rule clr)
    ultimately show ?thesis using True by (simp add: onlyClears_alpha_zero)
  next
    case False
    then have "t \<in> set us" using Cons.prems(1) by simp
    moreover have "onlyClears d0 (f u d)" using Cons.prems(2) clr onlyClears_trans by blast
    ultimately have "alphaAt (fold f us (f u d)) w y x = Some 0" by (rule Cons.IH)
    then show ?thesis by simp
  qed
qed

text \<open>
  C4 (as amended).  After \<open>removeShadowsAlongSlices\<close>, every pixel in a row \<open>y\<close> with
  \<open>max 0 (s - shadowWidth) \<le> y < min height (s + shadowWidth)\<close> for a slice coordinate
  \<open>s\<close>, whose alpha in the input is above 0 and below 128 and which has at least two fully
  transparent in-bounds 4-connected neighbours in the input, has alpha 0.
\<close>

theorem removeShadowsAlongSlices_zeroes:
  assumes s: "s \<in> set sliceLines"
    and band: "max 0 (s - shadowWidth) \<le> y" "y < min (int (height img)) (s + shadowWidth)"
    and col: "0 \<le> x" "x < int (width img)"
    and a: "alphaAt (data img) (width img) y x = Some a" "0 < a" "a < 128"
    and n: "2 \<le> transparentNeighbors (data img) x y (width img) (height img)"
  shows "alphaAt (data (removeShadowsAlongSlices img sliceLines shadowWidth)) (width img) y x = Some 0"
proof -
  let ?w = "width img" and ?h = "height img"
  let ?row = "\<lambda>y d. fold (shadowStep ?w ?h y) [0 .. int ?w - 1] d"
  let ?slice = "\<lambda>sliceLine d. fold ?row
        [max 0 (sliceLine - shadowWidth) .. min (int ?h) (sliceLine + shadowWidth) - 1] d"
  have rowc: "\<And>u e. onlyClears e (?row u e)"
    by (rule fold_onlyClears) (rule shadowStep_clears)
  have slicec: "\<And>u e. onlyClears e (?slice u e)"
    by (rule fold_onlyClears) (rule rowc)
  have row: "alphaAt (?row y e) ?w y x = Some 0" if "onlyClears (data img) e" for e
  proof (rule fold_establishes [where t = x and ?d0.0 = "data img"])
    show "x \<in> set [0 .. int ?w - 1]" using col by simp
    show "\<And>u e. onlyClears e (shadowStep ?w ?h y u e)" by (rule shadowStep_clears)
    show "\<And>e. onlyClears (data img) e \<Longrightarrow> alphaAt (shadowStep ?w ?h y x e) ?w y x = Some 0"
      by (rule shadowStep_establishes [OF _ a n])
    show "onlyClears (data img) e" by (rule that)
  qed
  have slice: "alphaAt (?slice s e) ?w y x = Some 0" if "onlyClears (data img) e" for e
  proof (rule fold_establishes [where t = y and ?d0.0 = "data img"])
    show "y \<in> set [max 0 (s - shadowWidth) .. min (int ?h) (s + shadowWidth) - 1]"
      using band by simp
    show "\<And>u e. onlyClears e (?row u e)" by (rule rowc)
    show "\<And>e. onlyClears (data img) e \<Longrightarrow> alphaAt (?row y e) ?w y x = Some 0" by (rule row)
    show "onlyClears (data img) e" by (rule that)
  qed
  have "alphaAt (fold ?slice sliceLines (data img)) ?w y x = Some 0"
  proof (rule fold_establishes [where t = s and ?d0.0 = "data img"])
    show "s \<in> set sliceLines" by (rule s)
    show "\<And>u e. onlyClears e (?slice u e)" by (rule slicec)
    show "\<And>e. onlyClears (data img) e \<Longrightarrow> alphaAt (?slice s e) ?w y x = Some 0" by (rule slice)
    show "onlyClears (data img) (data img)" by (rule onlyClears_refl)
  qed
  then show ?thesis by (simp add: removeShadowsAlongSlices_def)
qed

lemma removeShadows_onlyClears:
  "onlyClears (data img) (data (removeShadowsAlongSlices img sliceLines shadowWidth))"
  unfolding removeShadowsAlongSlices_def
  by (simp, intro fold_onlyClears shadowStep_clears)

lemma pred_div_mod:
  fixes i w :: nat
  assumes w: "0 < w" and "0 < i mod w"
  shows "(i - 1) div w = i div w" and "(i - 1) mod w + 1 = i mod w"
proof -
  define q r where "q = i div w" and "r = i mod w"
  have i: "i = w * q + r" by (simp add: q_def r_def)
  have r: "0 < r" "r < w" using assms by (simp_all add: r_def)
  have lo: "w * q \<le> i - 1" using i r by linarith
  have hi: "i - 1 < w * Suc q" using i r by simp
  show d: "(i - 1) div w = i div w" unfolding q_def [symmetric] by (rule div_nat_eqI [OF lo hi])
  have "(i - 1) mod w = (i - 1) - w * ((i - 1) div w)" by (simp add: minus_mult_div_eq_mod)
  also have "\<dots> = (i - 1) - w * q" by (simp only: d q_def)
  also have "\<dots> = r - 1" using i r by simp
  finally show "(i - 1) mod w + 1 = i mod w" using r by (simp add: r_def)
qed

lemma succ_div_mod:
  fixes i w :: nat
  assumes w: "0 < w" and "i mod w < w - 1"
  shows "(i + 1) div w = i div w" and "(i + 1) mod w = i mod w + 1"
proof -
  define q r where "q = i div w" and "r = i mod w"
  have i: "i = w * q + r" by (simp add: q_def r_def)
  have r: "r < w - 1" using assms by (simp add: r_def)
  have lo: "w * q \<le> i + 1" using i by linarith
  have hi: "i + 1 < w * Suc q" using i r by simp
  show d: "(i + 1) div w = i div w" unfolding q_def [symmetric] by (rule div_nat_eqI [OF lo hi])
  have "(i + 1) mod w = (i + 1) - w * ((i + 1) div w)" by (simp add: minus_mult_div_eq_mod)
  also have "\<dots> = (i + 1) - w * q" by (simp only: d q_def)
  also have "\<dots> = r + 1" using i by simp
  finally show "(i + 1) mod w = i mod w + 1" by (simp add: r_def)
qed

lemma below_div: "0 < w \<Longrightarrow> i div w < k \<Longrightarrow> i < w * k" for i w k :: nat
  by (simp add: less_mult_imp_div_less div_less_iff_less_mult mult.commute)

lemma in_image: "0 < w \<Longrightarrow> i < w * h \<Longrightarrow> i div w < h" for i w h :: nat
  by (simp add: less_mult_imp_div_less mult.commute)

text \<open>The neighbours the loop appends, for an index inside the image.\<close>

lemma neighbours_inside:
  assumes w: "0 < w" and i: "i < w * h" and n: "n \<in> set (neighbours w h (int i))"
  shows "\<exists>j. n = int j \<and> j < w * h \<and> adjacent w i j"
proof -
  have row: "i div w < h" using in_image [OF w i] .
  have x: "int i mod int w = int (i mod w)" and y: "int i div int w = int (i div w)"
    by (simp_all add: zmod_int zdiv_int)
  from n consider
      (left) "0 < i mod w" "n = int i - 1"
    | (right) "i mod w < w - 1" "n = int i + 1"
    | (up) "0 < i div w" "n = int i - int w"
    | (down) "i div w < h - 1" "n = int i + int w"
    using w unfolding neighbours_def Let_def x y
    by (auto split: if_splits simp: of_nat_diff)
  then show ?thesis
  proof cases
    case left
    then have i1: "1 \<le> i" by (cases i) auto
    have "adjacent w i (i - 1)"
      using pred_div_mod [OF w left(1)] by (simp add: adjacent_def)
    moreover have "i - 1 < w * h" using i by simp
    moreover have "n = int (i - 1)" using left(2) i1 by simp
    ultimately show ?thesis by blast
  next
    case right
    have "adjacent w i (i + 1)"
      using succ_div_mod [OF w right(1)] by (simp add: adjacent_def)
    moreover have "i + 1 < w * h"
    proof -
      have "i + 1 < w * Suc (i div w)"
        using succ_div_mod(1) [OF w right(1)] dividend_less_times_div [OF w, of "i + 1"] by simp
      also have "\<dots> \<le> w * h" using row by (intro mult_le_mono2) simp
      finally show ?thesis .
    qed
    moreover have "n = int (i + 1)" using right(2) by simp
    ultimately show ?thesis by blast
  next
    case up
    then have ge: "w \<le> i" using w by (metis div_greater_zero_iff)
    have "adjacent w i (i - w)"
      using ge w le_div_geq [OF w ge] le_mod_geq [OF ge] by (simp add: adjacent_def)
    moreover have "i - w < w * h" using i by simp
    moreover have "n = int (i - w)" using up(2) ge by simp
    ultimately show ?thesis by blast
  next
    case down
    have "adjacent w i (i + w)" using w by (simp add: adjacent_def)
    moreover have "i + w < w * h"
    proof -
      have "Suc (i div w) < h" using down(1) by simp
      then have "i + w < w * Suc (Suc (i div w))"
        using dividend_less_times_div [OF w, of i] by simp
      also have "\<dots> \<le> w * h" using \<open>Suc (i div w) < h\<close> by (intro mult_le_mono2) simp
      finally show ?thesis .
    qed
    moreover have "n = int (i + w)" using down(2) by simp
    ultimately show ?thesis by blast
  qed
qed

lemma neighbours_length: "length (neighbours w h index) \<le> 4"
  by (simp add: neighbours_def Let_def)

lemma unvisited_update:
  "i < length xs \<Longrightarrow> xs ! i = 0 \<Longrightarrow>
   Suc (length (filter (\<lambda>v. v = 0) (xs[i := Suc 0]))) = length (filter (\<lambda>v. v = (0::nat)) xs)"
proof (induction xs arbitrary: i)
  case Nil
  then show ?case by simp
next
  case (Cons a xs)
  then show ?case by (cases i) auto
qed

lemma rd_inside: "j < length d \<Longrightarrow> rd d (int j) = Some (d ! j)"
  by (simp add: rd_def)

lemma wr_inside: "j < length d \<Longrightarrow> wr d (int j) v = d[j := v]"
  by (simp add: wr_def)

lemma floodLoop_total:
  assumes w: "0 < w" and lm: "length m = w * h"
  shows "length visited = w * h \<Longrightarrow> length result = w * h \<Longrightarrow>
         (\<forall>q \<in> set queue. \<exists>j. q = int j \<and> j < w * h \<and> (m ! j \<noteq> 0 \<longrightarrow> reachable m w h j)) \<Longrightarrow>
         (\<forall>i < w * h. result ! i \<noteq> 0 \<longrightarrow> m ! i \<noteq> 0 \<and> reachable m w h i) \<Longrightarrow>
         \<exists>y. floodLoop m w h queue visited result = Some y \<and> length y = w * h \<and>
             (\<forall>i < w * h. y ! i \<noteq> 0 \<longrightarrow> m ! i \<noteq> 0 \<and> reachable m w h i)"
proof (induction "4 * length (filter (\<lambda>v. v = 0) visited) + length queue"
        arbitrary: queue visited result rule: less_induct)
  case less
  show ?case
  proof (cases queue)
    case Nil
    then show ?thesis using less.prems by (subst floodLoop.simps) simp
  next
    case (Cons index rest)
    from less.prems(3) Cons obtain j where j: "index = int j" "j < w * h"
      "m ! j \<noteq> 0 \<longrightarrow> reachable m w h j" by auto
    have rest: "\<forall>q \<in> set rest. \<exists>j. q = int j \<and> j < w * h \<and> (m ! j \<noteq> 0 \<longrightarrow> reachable m w h j)"
      using less.prems(3) Cons by simp
    have rv: "rd visited (int j) = Some (visited ! j)" and rm: "rd m (int j) = Some (m ! j)"
      using j less.prems(1) lm by (simp_all add: rd_inside)
    show ?thesis
    proof (cases "visited ! j \<noteq> 0 \<or> m ! j = 0")
      case True
      have eq: "floodLoop m w h queue visited result = floodLoop m w h rest visited result"
        using True unfolding Cons j(1)
        by (subst floodLoop.simps) (auto simp: rv rm truthy_def js_eq_def)
      have "\<exists>y. floodLoop m w h rest visited result = Some y \<and> length y = w * h \<and>
             (\<forall>i < w * h. y ! i \<noteq> 0 \<longrightarrow> m ! i \<noteq> 0 \<and> reachable m w h i)"
        using less.prems(1,2,4) rest by (intro less.hyps) (simp_all add: Cons)
      then show ?thesis unfolding eq .
    next
      case False
      then have v0: "visited ! j = 0" and mj: "m ! j \<noteq> 0" by auto
      then have rj: "reachable m w h j" using j(3) by simp
      let ?queue = "rest @ neighbours w h index"
      let ?visited = "visited[j := Suc 0]" and ?result = "result[j := Suc 0]"
      have eq: "floodLoop m w h queue visited result = floodLoop m w h ?queue ?visited ?result"
        using v0 mj j(2) less.prems(1,2) unfolding Cons j(1)
        by (subst floodLoop.simps) (simp add: rv rm truthy_def js_eq_def wr_inside)
      have nb: "\<forall>q \<in> set (neighbours w h index).
                  \<exists>k. q = int k \<and> k < w * h \<and> (m ! k \<noteq> 0 \<longrightarrow> reachable m w h k)"
      proof
        fix q assume "q \<in> set (neighbours w h index)"
        then obtain k where k: "q = int k" "k < w * h" "adjacent w j k"
          using neighbours_inside [OF w j(2)] j(1) by blast
        then show "\<exists>k. q = int k \<and> k < w * h \<and> (m ! k \<noteq> 0 \<longrightarrow> reachable m w h k)"
          using reachable.step [OF rj] by blast
      qed
      have res: "\<forall>i < w * h. ?result ! i \<noteq> 0 \<longrightarrow> m ! i \<noteq> 0 \<and> reachable m w h i"
      proof (intro allI impI)
        fix i assume i: "i < w * h" "?result ! i \<noteq> 0"
        show "m ! i \<noteq> 0 \<and> reachable m w h i"
        proof (cases "i = j")
          case True
          then show ?thesis using mj rj by simp
        next
          case False
          then have "result ! i \<noteq> 0" using i(2) by simp
          then show ?thesis using less.prems(4) i(1) by blast
        qed
      qed
      have cnt: "Suc (length (filter (\<lambda>v. v = 0) ?visited)) = length (filter (\<lambda>v. v = 0) visited)"
        using unvisited_update [of j visited] j(2) less.prems(1) v0 by simp
      have smaller: "4 * length (filter (\<lambda>v. v = 0) ?visited) + length ?queue
                       < 4 * length (filter (\<lambda>v. v = 0) visited) + length queue"
        using cnt neighbours_length [of w h index] unfolding Cons by simp
      have "\<exists>y. floodLoop m w h ?queue ?visited ?result = Some y \<and> length y = w * h \<and>
             (\<forall>i < w * h. y ! i \<noteq> 0 \<longrightarrow> m ! i \<noteq> 0 \<and> reachable m w h i)"
        using smaller less.prems(1,2) rest nb res by (intro less.hyps) auto
      then show ?thesis unfolding eq .
    qed
  qed
qed

lemma initialQueue_border:
  assumes w: "0 < w" and h: "0 < h" and q: "q \<in> set (initialQueue w h)"
  shows "\<exists>j. q = int j \<and> j < w * h \<and> onBorder w h j"
proof -
  from q consider
      (top) x where "x < w" "q = int x"
    | (bottom) x where "x < w" "q = (int h - 1) * int w + int x"
    | (left) y where "y < h" "q = int y * int w"
    | (right) y where "y < h" "q = int y * int w + int w - 1"
    unfolding initialQueue_def by auto
  then show ?thesis
  proof cases
    case top
    have "x < w * h" using top(1) h by (metis mult.right_neutral Suc_leI One_nat_def mult_le_mono2 less_le_trans)
    moreover have "onBorder w h x" using top(1) by (simp add: onBorder_def)
    ultimately show ?thesis using top(2) by blast
  next
    case bottom
    let ?j = "(h - 1) * w + x"
    have e: "q = int ?j" using bottom(2) h by (simp add: of_nat_diff)
    have "?j div w = h - 1" using bottom(1) by simp
    then have b: "onBorder w h ?j" by (simp add: onBorder_def)
    have "?j < (h - 1) * w + w" using bottom(1) by simp
    also have "\<dots> = w * h" using h by (cases h) simp_all
    finally show ?thesis using e b by blast
  next
    case left
    let ?j = "y * w"
    have "?j < w * h" using left(1) w by simp
    moreover have "onBorder w h ?j" by (simp add: onBorder_def)
    moreover have "q = int ?j" using left(2) by simp
    ultimately show ?thesis by blast
  next
    case right
    let ?j = "(w - 1) + y * w"
    have e: "q = int ?j" using right(2) w by (simp add: of_nat_diff)
    have "?j mod w = (w - 1) mod w" by (rule mod_mult_self1)
    also have "\<dots> = w - 1" using w by simp
    finally have b: "onBorder w h ?j" by (simp add: onBorder_def)
    have "?j < y * w + w" using w by simp
    also have "\<dots> = w * Suc y" by simp
    also have "\<dots> \<le> w * h" using right(1) by (intro mult_le_mono2) simp
    finally show ?thesis using e b by blast
  qed
qed

lemma floodFillFromEdges_total:
  assumes w: "0 < w" and h: "0 < h" and lm: "length m = w * h"
  shows "\<exists>y. floodFillFromEdges m w h = Some y \<and> length y = w * h \<and>
             (\<forall>i < w * h. y ! i \<noteq> 0 \<longrightarrow> m ! i \<noteq> 0 \<and> reachable m w h i)"
  unfolding floodFillFromEdges_def
proof (rule floodLoop_total [OF w lm])
  show "\<forall>q \<in> set (initialQueue w h).
          \<exists>j. q = int j \<and> j < w * h \<and> (m ! j \<noteq> 0 \<longrightarrow> reachable m w h j)"
    using initialQueue_border [OF w h] reachable.edge [of _ w h m] by blast
qed simp_all

lemma candidateMask_length [simp]:
  "length (candidateMask img bg t) = width img * height img"
  by (simp add: candidateMask_def)

lemma candidateMask_nth:
  "i < width img * height img \<Longrightarrow>
   candidateMask img bg t ! i \<noteq> 0 \<longleftrightarrow> isCandidate (data img) bg t i"
  by (simp add: candidateMask_def)

lemma reachable_inside: "reachable m w h i \<Longrightarrow> i < w * h \<and> m ! i \<noteq> 0"
  by (induction rule: reachable.induct) auto

lemma adjacent_sym: "adjacent w i j \<Longrightarrow> adjacent w j i"
  by (auto simp: adjacent_def)

lemma enclosed_unreachable:
  assumes "reachable m w h i"
    and nb: "\<And>k. k \<in> S \<Longrightarrow> \<not> onBorder w h k"
    and wall: "\<And>k j. k \<in> S \<Longrightarrow> adjacent w k j \<Longrightarrow> j < w * h \<Longrightarrow> j \<notin> S \<Longrightarrow> m ! j = 0"
  shows "i \<notin> S"
  using assms(1)
proof (induction rule: reachable.induct)
  case (edge i)
  then show ?case using nb by blast
next
  case (step i j)
  show ?case
  proof
    assume "j \<in> S"
    then have "m ! i = 0"
      using wall [of j i] adjacent_sym [OF step.hyps(2)] reachable_inside [OF step.hyps(1)]
        step.IH by blast
    then show False using reachable_inside [OF step.hyps(1)] by simp
  qed
qed

lemma createBackgroundMask_total:
  assumes w: "0 < width img" and h: "0 < height img"
  shows "\<exists>y. createBackgroundMask img bg t = Some y \<and> length y = width img * height img \<and>
           (\<forall>i < width img * height img. y ! i \<noteq> 0 \<longrightarrow>
               isCandidate (data img) bg t i \<and>
               reachable (candidateMask img bg t) (width img) (height img) i)"
proof -
  obtain y where y: "floodFillFromEdges (candidateMask img bg t) (width img) (height img) = Some y"
      "length y = width img * height img"
      "\<forall>i < width img * height img. y ! i \<noteq> 0 \<longrightarrow>
          candidateMask img bg t ! i \<noteq> 0 \<and>
          reachable (candidateMask img bg t) (width img) (height img) i"
    using floodFillFromEdges_total [OF w h candidateMask_length [of img bg t]] by blast
  have "\<forall>i < width img * height img. y ! i \<noteq> 0 \<longrightarrow>
               isCandidate (data img) bg t i \<and>
               reachable (candidateMask img bg t) (width img) (height img) i"
    using y(3) candidateMask_nth [of _ img bg t] by blast
  then show ?thesis using y(1,2) unfolding createBackgroundMask_def by blast
qed

lemma rd_wr_other: "a \<noteq> b \<Longrightarrow> rd (wr d a v) b = rd d b"
  by (auto simp: rd_def wr_def)

lemma applyTransparencyMask_clears: "onlyClears d (applyTransparencyMask d m)"
  unfolding applyTransparencyMask_def
  by (rule fold_onlyClears) (simp add: onlyClears_wr onlyClears_refl)

lemma applyTransparencyMask_keeps:
  assumes "m ! i \<noteq> 1"
  shows "rd (applyTransparencyMask d m) (int i * 4 + 3) = rd d (int i * 4 + 3)"
  unfolding applyTransparencyMask_def
proof (rule fold_invariant [where Q = "\<lambda>_. True"])
  fix j e
  assume e: "rd e (int i * 4 + 3) = rd d (int i * 4 + 3)"
  show "rd (if m ! j = 1 then wr e (int j * 4 + 3) 0 else e) (int i * 4 + 3) = rd d (int i * 4 + 3)"
  proof (cases "m ! j = 1")
    case True
    then have "j \<noteq> i" using assms by auto
    then have "int j * 4 + 3 \<noteq> int i * 4 + 3" by simp
    then show ?thesis using True e by (simp add: rd_wr_other)
  next
    case False
    then show ?thesis using e by simp
  qed
qed simp_all

lemma pixelIndex_number:
  "0 < w \<Longrightarrow> pixelIndex w (int (k div w)) (int (k mod w)) = int k * 4"
proof -
  have "k div w * w + k mod w = k" by simp
  then have "int (k div w) * int w + int (k mod w) = int k"
    by (metis of_nat_add of_nat_mult)
  then show ?thesis by (simp add: pixelIndex_def)
qed

lemma checkAndRemoveGradient_clears: "onlyClears d (checkAndRemoveGradient w h a x y d)"
  by (simp add: checkAndRemoveGradient_def Let_def onlyClears_wr_pixel onlyClears_refl)

lemma removeGradientShadows_clears: "onlyClears d (removeGradientShadows w h a d)"
  unfolding removeGradientShadows_def Let_def
proof (rule fold_onlyClears)
  fix depth e
  have two: "onlyClears e' (checkAndRemoveGradient w h a x2 y2 (checkAndRemoveGradient w h a x1 y1 e'))"
    for e' x1 y1 x2 y2
    using checkAndRemoveGradient_clears onlyClears_trans by blast
  let ?rows = "fold (\<lambda>x d. checkAndRemoveGradient w h a x (int h - 1 - depth)
                                  (checkAndRemoveGradient w h a x depth d)) [0 .. int w - 1] e"
  have "onlyClears e ?rows" by (rule fold_onlyClears) (rule two)
  moreover have "onlyClears ?rows
      (fold (\<lambda>y d. checkAndRemoveGradient w h a (int w - 1 - depth) y
                               (checkAndRemoveGradient w h a depth y d)) [0 .. int h - 1] ?rows)"
    by (rule fold_onlyClears) (rule two)
  ultimately show "onlyClears e
      (fold (\<lambda>y d. checkAndRemoveGradient w h a (int w - 1 - depth) y
                               (checkAndRemoveGradient w h a depth y d)) [0 .. int h - 1] ?rows)"
    by (rule onlyClears_trans)
qed

lemma removeSemiTransparentPixels_clears: "onlyClears d (removeSemiTransparentPixels w h a d)"
  unfolding removeSemiTransparentPixels_def Let_def
  by (rule fold_onlyClears) (simp add: onlyClears_wr onlyClears_refl split: option.split)

lemma newImageData_valid:
  "validBuffer img \<Longrightarrow>
   newImageData (data img) (width img) (height img) =
     Inr \<lparr>width = width img, height = height img, data = data img\<rparr>"
  by (auto simp: validBuffer_def newImageData_def)

lemma newImageData_invalid:
  assumes "\<not> validBuffer img"
  shows "\<exists>e. newImageData (data img) (width img) (height img) = Inl e"
proof (cases "length (data img) = 0 \<or> length (data img) mod 4 \<noteq> 0 \<or> width img = 0 \<or>
               (length (data img) div 4) mod width img \<noteq> 0 \<or>
               (length (data img) div 4) div width img \<noteq> height img")
  case True
  then show ?thesis by (auto simp: newImageData_def)
next
  case False
  then have l4: "length (data img) = 4 * (length (data img) div 4)"
    and w: "0 < width img"
    and wh: "length (data img) div 4 = width img * height img"
    by auto
  then have "0 < height img" using False by (cases "height img = 0") auto
  then have "validBuffer img" using l4 w wh by (simp add: validBuffer_def)
  then show ?thesis using assms by simp
qed

lemma removeBackground_valid:
  assumes v: "validBuffer img"
  shows "\<exists>res. removeBackground img t a = Some (Inr res) \<and> width res = width img \<and>
           height res = height img \<and> onlyClears (data img) (data res)"
proof -
  let ?copy = "\<lparr>width = width img, height = height img, data = data img\<rparr>"
  have w: "0 < width ?copy" and h: "0 < height ?copy" using v by (simp_all add: validBuffer_def)
  obtain m where m: "backgroundMask ?copy t a = Some m"
    using createBackgroundMask_total [OF w h] unfolding backgroundMask_def by blast
  let ?d1 = "applyTransparencyMask (data img) m"
  let ?d2 = "removeGradientShadows (width img) (height img) (max a 25) ?d1"
  let ?d3 = "removeSemiTransparentPixels (width img) (height img) (max a 30) ?d2"
  have "onlyClears (data img) ?d1" by (rule applyTransparencyMask_clears)
  moreover have "onlyClears ?d1 ?d2" by (rule removeGradientShadows_clears)
  moreover have "onlyClears ?d2 ?d3" by (rule removeSemiTransparentPixels_clears)
  ultimately have "onlyClears (data img) ?d3" by (blast intro: onlyClears_trans)
  moreover have "removeBackground img t a = Some (Inr (?copy\<lparr>data := ?d3\<rparr>))"
    by (simp add: removeBackground_def newImageData_valid [OF v] m)
  ultimately show ?thesis by simp
qed

lemma removeBackgroundBasic_valid:
  assumes v: "validBuffer img"
  shows "\<exists>res. removeBackgroundBasic img t = Some (Inr res) \<and> width res = width img \<and>
           height res = height img \<and> onlyClears (data img) (data res)"
proof -
  let ?copy = "\<lparr>width = width img, height = height img, data = data img\<rparr>"
  have w: "0 < width ?copy" and h: "0 < height ?copy" using v by (simp_all add: validBuffer_def)
  obtain m where m: "createBackgroundMask ?copy (findDominantColor (sampleCorners img)) t = Some m"
    using createBackgroundMask_total [OF w h] by blast
  have "removeBackgroundBasic img t =
          Some (Inr (?copy\<lparr>data := applyTransparencyMask (data img) m\<rparr>))"
    by (simp add: removeBackgroundBasic_def newImageData_valid [OF v] m)
  then show ?thesis using applyTransparencyMask_clears [of "data img" m] by simp
qed

lemma removeBackgroundBasic_invalid:
  assumes "\<not> validBuffer img"
  shows "\<exists>e. removeBackgroundBasic img t = Some (Inl e)"
  using newImageData_invalid [OF assms] by (auto simp: removeBackgroundBasic_def)

lemma removeBackground_invalid:
  assumes "\<not> validBuffer img"
  shows "\<exists>e. removeBackground img t a = Some (Inl e)"
  using newImageData_invalid [OF assms] by (auto simp: removeBackground_def)

theorem removeShadowsAlongSlices_zeroes_witness:
  "(2::int) \<in> set [2] \<and> max 0 (2 - 1) \<le> (2::int) \<and>
   (2::int) < min (int (height shadowTest)) (2 + 1) \<and> (0::int) \<le> 1 \<and>
   (1::int) < int (width shadowTest) \<and>
   alphaAt (data shadowTest) (width shadowTest) 2 1 = Some 100 \<and>
   2 \<le> transparentNeighbors (data shadowTest) 1 2 (width shadowTest) (height shadowTest) \<and>
   alphaAt (data (removeShadowsAlongSlices shadowTest [2] 1)) (width shadowTest) 2 1 = Some 0"
proof -
  have s: "(2::int) \<in> set [2]" by simp
  have b1: "max 0 (2 - 1) \<le> (2::int)" by simp
  have b2: "(2::int) < min (int (height shadowTest)) (2 + 1)" by (simp add: shadowTest_def)
  have c1: "(0::int) \<le> 1" by simp
  have c2: "(1::int) < int (width shadowTest)" by (simp add: shadowTest_def)
  have a: "alphaAt (data shadowTest) (width shadowTest) 2 1 = Some 100" by code_simp
  have n: "2 \<le> transparentNeighbors (data shadowTest) 1 2 (width shadowTest) (height shadowTest)"
    by code_simp
  have "alphaAt (data (removeShadowsAlongSlices shadowTest [2] 1)) (width shadowTest) 2 1 = Some 0"
    by (rule removeShadowsAlongSlices_zeroes [OF s b1 b2 c1 c2 a _ _ n]) simp_all
  then show ?thesis using s b1 b2 c1 c2 a n by blast
qed

text \<open>
  C4 as stated fails on \<open>shadowTest\<close> with the slice coordinate 1 and shadow width 1.
  The pixel in the middle of row 0 has alpha 150 (below 200) and two transparent
  neighbours, and keeps its alpha, because \<open>isShadowPixel\<close> also asks for alpha below 128.
  The pixel in the middle of row 2 has alpha 100 and two transparent neighbours and lies
  one row from the slice, and keeps its alpha, because the band ends before row
  \<open>s + shadowWidth\<close>.
\<close>

theorem removeShadowsAlongSlices_counterexample:
  "alphaAt (data shadowTest) 3 0 1 = Some 150 \<and>
   transparentNeighbors (data shadowTest) 1 0 3 3 = 2 \<and>
   alphaAt (data (removeShadowsAlongSlices shadowTest [1] 1)) 3 0 1 = Some 150 \<and>
   alphaAt (data shadowTest) 3 2 1 = Some 100 \<and>
   transparentNeighbors (data shadowTest) 1 2 3 3 = 2 \<and>
   alphaAt (data (removeShadowsAlongSlices shadowTest [1] 1)) 3 2 1 = Some 100"
  by code_simp

text \<open>
  C9.  \<open>removeShadowsAlongSlices\<close> always returns, and \<open>removeBackground\<close> (either
  version) always returns or throws: it throws exactly on the buffers the \<open>ImageData\<close>
  constructor rejects.  In the buffer any of them returns, every R, G and B byte is the
  input's, and every alpha byte is the input's or 0.
\<close>

theorem cleaning_only_clears_alpha:
  "onlyClears (data img) (data (removeShadowsAlongSlices img sliceLines shadowWidth)) \<and>
   width (removeShadowsAlongSlices img sliceLines shadowWidth) = width img \<and>
   height (removeShadowsAlongSlices img sliceLines shadowWidth) = height img \<and>
   (case removeBackground img tolerance aggressiveness of
      None \<Rightarrow> False
    | Some (Inl e) \<Rightarrow> \<not> validBuffer img
    | Some (Inr res) \<Rightarrow>
        validBuffer img \<and> width res = width img \<and> height res = height img \<and>
        onlyClears (data img) (data res)) \<and>
   (case removeBackgroundBasic img tolerance of
      None \<Rightarrow> False
    | Some (Inl e) \<Rightarrow> \<not> validBuffer img
    | Some (Inr res) \<Rightarrow>
        validBuffer img \<and> width res = width img \<and> height res = height img \<and>
        onlyClears (data img) (data res))"
proof -
  have full: "case removeBackground img tolerance aggressiveness of
      None \<Rightarrow> False
    | Some (Inl e) \<Rightarrow> \<not> validBuffer img
    | Some (Inr res) \<Rightarrow>
        validBuffer img \<and> width res = width img \<and> height res = height img \<and>
        onlyClears (data img) (data res)"
  proof (cases "validBuffer img")
    case True
    with removeBackground_valid [OF True, of tolerance aggressiveness] show ?thesis by auto
  next
    case False
    with removeBackground_invalid [OF False, of tolerance aggressiveness] show ?thesis by auto
  qed
  have basic: "case removeBackgroundBasic img tolerance of
      None \<Rightarrow> False
    | Some (Inl e) \<Rightarrow> \<not> validBuffer img
    | Some (Inr res) \<Rightarrow>
        validBuffer img \<and> width res = width img \<and> height res = height img \<and>
        onlyClears (data img) (data res)"
  proof (cases "validBuffer img")
    case True
    with removeBackgroundBasic_valid [OF True, of tolerance] show ?thesis by auto
  next
    case False
    with removeBackgroundBasic_invalid [OF False, of tolerance] show ?thesis by auto
  qed
  show ?thesis
    using full basic removeShadows_onlyClears [of img sliceLines shadowWidth]
    by (simp add: removeShadowsAlongSlices_def)
qed

text \<open>
  C6.  For an image with at least one row and one column, the mask \<open>removeBackground\<close>
  builds marks a pixel only if it is a background candidate and a 4-connected path of
  candidates joins it to a candidate on the border.  Hence for a set \<open>S\<close> of pixels none of
  which is on the border and around which every pixel outside \<open>S\<close> is not a candidate, no
  pixel of \<open>S\<close> is marked, and applying the mask leaves its alpha as it is.
\<close>

theorem backgroundMask_flood_contained:
  fixes img tolerance aggressiveness
  defines "w \<equiv> width img" and "h \<equiv> height img"
  defines "bg \<equiv> findMostCommonColor (sampleBackgroundPoints img)"
  defines "tol \<equiv> max tolerance (aggressiveness * 2)"
  assumes pos: "0 < width img" "0 < height img"
  shows "\<exists>maskArr. backgroundMask img tolerance aggressiveness = Some maskArr \<and>
           length maskArr = w * h \<and>
           (\<forall>i < w * h. maskArr ! i \<noteq> 0 \<longrightarrow>
               isCandidate (data img) bg tol i \<and> reachable (candidateMask img bg tol) w h i) \<and>
           (\<forall>S. (\<forall>k \<in> S. k < w * h \<and> \<not> onBorder w h k) \<and>
                (\<forall>k \<in> S. \<forall>j. adjacent w k j \<and> j < w * h \<and> j \<notin> S
                     \<longrightarrow> \<not> isCandidate (data img) bg tol j)
              \<longrightarrow> (\<forall>k \<in> S. maskArr ! k = 0 \<and>
                     alphaAt (applyTransparencyMask (data img) maskArr) w
                        (int (k div w)) (int (k mod w))
                       = alphaAt (data img) w (int (k div w)) (int (k mod w))))"
proof -
  obtain y where y: "backgroundMask img tolerance aggressiveness = Some y"
      "length y = w * h"
      "\<forall>i < w * h. y ! i \<noteq> 0 \<longrightarrow>
          isCandidate (data img) bg tol i \<and> reachable (candidateMask img bg tol) w h i"
    using createBackgroundMask_total [OF pos, of bg tol]
    unfolding backgroundMask_def w_def h_def bg_def tol_def by blast
  have enc: "y ! k = 0 \<and>
             alphaAt (applyTransparencyMask (data img) y) w (int (k div w)) (int (k mod w))
               = alphaAt (data img) w (int (k div w)) (int (k mod w))"
    if S: "\<forall>k \<in> S. k < w * h \<and> \<not> onBorder w h k"
      "\<forall>k \<in> S. \<forall>j. adjacent w k j \<and> j < w * h \<and> j \<notin> S \<longrightarrow> \<not> isCandidate (data img) bg tol j"
      and k: "k \<in> S" for S k
  proof -
    have kw: "k < w * h" using S(1) k by blast
    have "\<not> reachable (candidateMask img bg tol) w h k"
    proof
      assume "reachable (candidateMask img bg tol) w h k"
      then have "k \<notin> S"
      proof (rule enclosed_unreachable)
        show "\<And>k. k \<in> S \<Longrightarrow> \<not> onBorder w h k" using S(1) by blast
        show "\<And>k j. k \<in> S \<Longrightarrow> adjacent w k j \<Longrightarrow> j < w * h \<Longrightarrow> j \<notin> S \<Longrightarrow>
                candidateMask img bg tol ! j = 0"
          using S(2) candidateMask_nth [of _ img bg tol] unfolding w_def h_def by blast
      qed
      then show False using k by simp
    qed
    then have z: "y ! k = 0" using y(3) kw by blast
    then have "rd (applyTransparencyMask (data img) y) (int k * 4 + 3) = rd (data img) (int k * 4 + 3)"
      by (intro applyTransparencyMask_keeps) simp
    then show ?thesis
      using z pos(1) by (simp add: alphaAt_def pixelIndex_number w_def)
  qed
  show ?thesis using y(1,2,3) enc by blast
qed

theorem backgroundMask_flood_contained_witness:
  "0 < width checker \<and> 0 < height checker \<and> \<not> onBorder 3 3 4 \<and>
   isCandidate (data checker) (findMostCommonColor (sampleBackgroundPoints checker)) 60 4 \<and>
   (\<exists>maskArr. backgroundMask checker 10 30 = Some maskArr \<and> maskArr ! 4 = 0 \<and>
      alphaAt (applyTransparencyMask (data checker) maskArr) 3 1 1 = Some 255)"
proof -
  let ?bg = "findMostCommonColor (sampleBackgroundPoints checker)"
  have w: "0 < width checker" and h: "0 < height checker" by (simp_all add: checker_def)
  have wv: "width checker = 3" and hv: "height checker = 3" by (simp_all add: checker_def)
  have nb: "\<not> onBorder 3 3 4" by (simp add: onBorder_def)
  have c: "isCandidate (data checker) ?bg 60 4" by code_simp
  have wall: "list_all (\<lambda>j. adjacent 3 4 j \<longrightarrow> \<not> isCandidate (data checker) ?bg 60 j) [0..<9]"
    by code_simp
  have a: "alphaAt (data checker) 3 1 1 = Some 255" by code_simp
  obtain maskArr where m: "backgroundMask checker 10 30 = Some maskArr"
    and enc: "\<forall>S. (\<forall>k \<in> S. k < 3 * 3 \<and> \<not> onBorder 3 3 k) \<and>
                (\<forall>k \<in> S. \<forall>j. adjacent 3 k j \<and> j < 3 * 3 \<and> j \<notin> S
                     \<longrightarrow> \<not> isCandidate (data checker) ?bg (max 10 (30 * 2)) j)
              \<longrightarrow> (\<forall>k \<in> S. maskArr ! k = 0 \<and>
                     alphaAt (applyTransparencyMask (data checker) maskArr) 3
                        (int (k div 3)) (int (k mod 3))
                       = alphaAt (data checker) 3 (int (k div 3)) (int (k mod 3)))"
    using backgroundMask_flood_contained [OF w h, of 10 30] unfolding wv hv by blast
  have "maskArr ! 4 = 0 \<and>
        alphaAt (applyTransparencyMask (data checker) maskArr) 3 (int (4 div 3)) (int (4 mod 3))
          = alphaAt (data checker) 3 (int (4 div 3)) (int (4 mod 3))"
    using enc [rule_format, of "{4}" 4] nb wall by (simp add: list_all_iff)
  then show ?thesis using w h nb c m a by simp
qed

theorem cleaning_only_clears_alpha_witness:
  "validBuffer onePixel \<and>
   removeBackground onePixel 10 30 =
     Some (Inr \<lparr>width = 1, height = 1, data = [0, 0, 0, 0]\<rparr>) \<and>
   onlyClears (data onePixel) [0, 0, 0, 0] \<and>
   onlyClears (data onePixel) (data (removeShadowsAlongSlices onePixel [0] 3))"
proof -
  have e: "removeBackground onePixel 10 30 =
             Some (Inr \<lparr>width = 1, height = 1, data = [0, 0, 0, 0]\<rparr>)"
    by code_simp
  show ?thesis
    using cleaning_only_clears_alpha [of onePixel "[0]" 3 10 30] unfolding e by simp
qed


end
